theory Spec2Isabelle
  imports Main "HOL-Library.Word"
begin

section \<open>Type descriptors\<close>

text \<open>
  The program representation of the fuzzer: \<^verbatim>\<open>prog/analysis.go\<close> (traversal, analysis,
  feature scan) and \<^verbatim>\<open>prog/any.go\<close> (the ANY encoding and pointer squashing).

  Go's \<^verbatim>\<open>uint64\<close> is \<open>64 word\<close>: sums of sizes wrap as they do in the source.
\<close>

type_synonym u64 = "64 word"
type_synonym byte = "8 word"

text \<open>\<^verbatim>\<open>DirIn\<close> is the zero value of the direction, as in the descriptor tables
  (\<^verbatim>\<open>ArgDir: 1\<close> is an output).\<close>

datatype Dir = DirIn | DirOut | DirInOut

datatype BufferKind = BufferBlobRand | BufferBlobRange | BufferString | BufferFilename | BufferText

text \<open>
  A type descriptor refers to other descriptors by pointer, and the ANY descriptors refer
  to each other in a cycle (\<^verbatim>\<open>anyUnion\<close> \<open>\<rightarrow>\<close> \<^verbatim>\<open>anyPtrPtr\<close> \<open>\<rightarrow>\<close> \<^verbatim>\<open>anyArray\<close> \<open>\<rightarrow>\<close>
  \<^verbatim>\<open>anyUnion\<close>). A reference is the address of the descriptor object: the seven objects
  that \<^verbatim>\<open>initAnyTypes\<close> allocates have an address each, every other descriptor (the
  generated tables) is at some \<open>DescAddr n\<close>.
\<close>

datatype type_addr =
    AnyUnionAddr | AnyArrayAddr | AnyBlobAddr | AnyPtrPtrAddr | AnyPtr64Addr
  | AnyRes32Addr | AnyRes64Addr | DescAddr nat

text \<open>Modelled from the spec: the type descriptors (\<^verbatim>\<open>prog/types.go\<close> is not among the
  sources). A Type carries its size, direction, optional flag, bitfield offset and length
  and variable-length flag (section 3); the fields are named as \<^verbatim>\<open>initAnyTypes\<close> and the
  descriptor tables write them. \<^verbatim>\<open>IntTypeCommon\<close> is the part only scalar types have.\<close>

record IntTypeCommon =
  BitfieldOff :: u64
  BitfieldLen :: u64
  BitfieldMdl :: bool

record ResourceDesc =
  Name :: string
  DescKind :: "string list"
  Values :: "u64 list"
  BaseName :: string
  BaseSize :: u64

datatype TypeKind =
    ResourceType ResourceDesc
  | ConstType IntTypeCommon bool
  | IntType IntTypeCommon
  | FlagsType IntTypeCommon
  | LenType IntTypeCommon
  | ProcType IntTypeCommon
  | CsumType IntTypeCommon
  | VmaType
  | BufferType BufferKind
  | ArrayType type_addr
  | PtrType type_addr
  | StructType u64 "type_addr list"
  | UnionType "type_addr list"

text \<open>\<open>ResourceType desc\<close> holds \<^verbatim>\<open>Desc\<close> (its base integer type as name and size);
  \<open>ConstType c pad\<close> holds \<^verbatim>\<open>IsPad\<close>;
  \<open>ArrayType\<close> and \<open>PtrType\<close> hold the address of the element and pointee descriptor
  (\<^verbatim>\<open>Type\<close>); \<open>StructType align fields\<close> holds \<^verbatim>\<open>AlignAttr\<close> and \<^verbatim>\<open>Fields\<close>.\<close>

record Type =
  TypeName :: string
  FldName :: string
  TypeSize :: u64
  ArgDir :: Dir
  IsOptional :: bool
  IsVarlen :: bool
  Kind :: TypeKind

definition noBitfield :: IntTypeCommon where
  "noBitfield = \<lparr>BitfieldOff = 0, BitfieldLen = 0, BitfieldMdl = False\<rparr>"

fun intCommon :: "TypeKind \<Rightarrow> IntTypeCommon" where
  "intCommon (ConstType c p) = c"
| "intCommon (IntType c) = c"
| "intCommon (FlagsType c) = c"
| "intCommon (LenType c) = c"
| "intCommon (ProcType c) = c"
| "intCommon (CsumType c) = c"
| "intCommon k = noBitfield"

definition BitfieldOffset :: "Type \<Rightarrow> u64" where
  "BitfieldOffset t = BitfieldOff (intCommon (Kind t))"

definition BitfieldLength :: "Type \<Rightarrow> u64" where
  "BitfieldLength t = BitfieldLen (intCommon (Kind t))"

definition BitfieldMiddle :: "Type \<Rightarrow> bool" where
  "BitfieldMiddle t = BitfieldMdl (intCommon (Kind t))"

fun IsPad :: "Type \<Rightarrow> bool" where
  "IsPad t = (case Kind t of ConstType c p \<Rightarrow> p | _ \<Rightarrow> False)"

section \<open>Arguments\<close>

text \<open>Modelled from the spec: the Argument variants (\<^verbatim>\<open>prog/prog.go\<close> is not among the
  sources), section 3: Const, Result, Pointer, Data, Group and Union, each with its Type.
  A Pointer has an address, a VMA size and an optional pointee \<^verbatim>\<open>Res\<close>; Data is raw byte
  content; a Group is the ordered list \<^verbatim>\<open>Inner\<close>; a Union has one active \<^verbatim>\<open>Option\<close>.\<close>

datatype Arg =
    ConstArg Type u64
  | ResultArg Type u64
  | PointerArg Type u64 u64 "Arg option"
  | DataArg Type "byte list"
  | GroupArg Type "Arg list"
  | UnionArg Type Arg

fun TypeOf :: "Arg \<Rightarrow> Type" where
  "TypeOf (ConstArg t v) = t"
| "TypeOf (ResultArg t v) = t"
| "TypeOf (PointerArg t a vs r) = t"
| "TypeOf (DataArg t d) = t"
| "TypeOf (GroupArg t inner) = t"
| "TypeOf (UnionArg t opt) = t"

text \<open>Modelled from the spec: \<^verbatim>\<open>Arg.Size\<close>. A scalar, a resource and a pointer have the
  declared size of their type, Data the length of its content. A fixed-length group or
  union has its declared size; a variable-length union the size of its option, a
  variable-length struct the sizes of its non-bitfield-middle fields rounded up to its
  alignment (section 4.4), and a variable-length array (section 3 knows no other group)
  the sizes of its elements.\<close>

fun Size :: "Arg \<Rightarrow> u64" where
  "Size (ConstArg t v) = TypeSize t"
| "Size (ResultArg t v) = TypeSize t"
| "Size (PointerArg t a vs r) = TypeSize t"
| "Size (DataArg t d) = of_nat (length d)"
| "Size (GroupArg t inner) =
     (if \<not> IsVarlen t then TypeSize t
      else case Kind t of
        StructType align fs \<Rightarrow>
          (let size = sum_list (map Size (filter (\<lambda>fld. \<not> BitfieldMiddle (TypeOf fld)) inner))
           in if align \<noteq> 0 \<and> size mod align \<noteq> 0 then size + (align - size mod align)
              else size)
      | _ \<Rightarrow> sum_list (map Size inner))"
| "Size (UnionArg t opt) = (if \<not> IsVarlen t then TypeSize t else Size opt)"

text \<open>Modelled from the spec: a Pointer is null when it has no address, no VMA size and no
  pointee (section 3: the payload-free state).\<close>

fun IsNull :: "Arg \<Rightarrow> bool" where
  "IsNull (PointerArg t a vs r) = (a = 0 \<and> vs = 0 \<and> r = None)"
| "IsNull a = False"

section \<open>Traversal\<close>

text \<open>Every panic of the source is a value.\<close>

datatype error =
    BadGroupArgSize
  | BadPtrArg
  | BadPointerSize
  | SquashChangedSize
  | BitfieldInSquash
  | BadSize
  | TypeAssertion
  | NilDereference
  | DivideByZero
  | MakesliceLen

text \<open>\<^verbatim>\<open>Parent\<close> points to a slice of arguments and \<^verbatim>\<open>Base\<close> to a pointer argument;
  both may be nil.\<close>

record ArgCtx =
  Parent :: "Arg list option"
  Base :: "Arg option"
  Offset :: u64
  Stop :: bool

definition ArgCtx0 :: ArgCtx where
  "ArgCtx0 = \<lparr>Parent = None, Base = None, Offset = 0, Stop = False\<rparr>"

text \<open>The callback \<^verbatim>\<open>func(Arg, *ArgCtx)\<close> closes over the variables it updates and may
  write to the context: here it takes the state \<open>'s\<close> of those variables and returns the
  context and the state; it may panic.\<close>

type_synonym 's callback = "Arg \<Rightarrow> ArgCtx \<Rightarrow> 's \<Rightarrow> error + (ArgCtx \<times> 's)"

text \<open>\<open>foreachInner\<close> is the loop over \<^verbatim>\<open>a.Inner\<close>; it returns the state and
  \<^verbatim>\<open>totalSize\<close>.\<close>

fun foreachArgImpl :: "Arg \<Rightarrow> ArgCtx \<Rightarrow> 's callback \<Rightarrow> 's \<Rightarrow> error + 's"
  and foreachInner :: "Arg list \<Rightarrow> ArgCtx \<Rightarrow> u64 \<Rightarrow> 's callback \<Rightarrow> 's \<Rightarrow> error + ('s \<times> u64)"
where
  "foreachArgImpl arg ctx0 f s0 =
     (case f arg ctx0 s0 of
        Inl e \<Rightarrow> Inl e
      | Inr (ctx, s) \<Rightarrow>
          if Stop ctx then Inr s
          else (case arg of
              GroupArg t inner \<Rightarrow>
                (let ctx1 = (case Kind t of StructType al fs \<Rightarrow> ctx\<lparr>Parent := Some inner\<rparr>
                                          | _ \<Rightarrow> ctx)
                 in case foreachInner inner ctx1 0 f s of
                      Inl e \<Rightarrow> Inl e
                    | Inr (s1, totalSize) \<Rightarrow>
                        (let claimedSize = Size arg; varlen = IsVarlen t
                         in if varlen \<and> totalSize > claimedSize \<or> \<not> varlen \<and> totalSize \<noteq> claimedSize
                            then Inl BadGroupArgSize else Inr s1))
            | PointerArg t a vs res \<Rightarrow>
                (case res of
                   Some r \<Rightarrow> foreachArgImpl r (ctx\<lparr>Base := Some arg, Offset := 0\<rparr>) f s
                 | None \<Rightarrow> Inr s)
            | UnionArg t opt \<Rightarrow> foreachArgImpl opt ctx f s
            | _ \<Rightarrow> Inr s))"
| "foreachInner [] ctx totalSize f s = Inr (s, totalSize)"
| "foreachInner (arg1 # rest) ctx totalSize f s =
     (case foreachArgImpl arg1 ctx f s of
        Inl e \<Rightarrow> Inl e
      | Inr s1 \<Rightarrow>
          if \<not> BitfieldMiddle (TypeOf arg1)
          then (let size = Size arg1
                in foreachInner rest (ctx\<lparr>Offset := Offset ctx + size\<rparr>) (totalSize + size) f s1)
          else foreachInner rest ctx totalSize f s1)"

definition ForeachSubArg :: "Arg \<Rightarrow> 's callback \<Rightarrow> 's \<Rightarrow> error + 's" where
  "ForeachSubArg arg f s = foreachArgImpl arg ArgCtx0 f s"


text \<open>Modelled from the spec: a Call is a syscall identity, the ordered input arguments and
  an optional return pseudo-argument (section 3).\<close>

record Call =
  Meta :: string
  Args :: "Arg list"
  Ret :: "Arg option"

fun foreachArgs :: "Arg list \<Rightarrow> ArgCtx \<Rightarrow> 's callback \<Rightarrow> 's \<Rightarrow> error + 's" where
  "foreachArgs [] ctx f s = Inr s"
| "foreachArgs (arg # rest) ctx f s =
     (case foreachArgImpl arg ctx f s of
        Inl e \<Rightarrow> Inl e
      | Inr s1 \<Rightarrow> foreachArgs rest ctx f s1)"

definition ForeachArg :: "Call \<Rightarrow> 's callback \<Rightarrow> 's \<Rightarrow> error + 's" where
  "ForeachArg c f s =
     (let ctx = ArgCtx0
      in case (case Ret c of Some r \<Rightarrow> foreachArgImpl r ctx f s | None \<Rightarrow> Inr s) of
           Inl e \<Rightarrow> Inl e
         | Inr s1 \<Rightarrow> foreachArgs (Args c) (ctx\<lparr>Parent := Some (Args c)\<rparr>) f s1)"

subsection \<open>The contract of the traversal\<close>

text \<open>
  Section 4.1 in its own words: the arguments reached from an argument, in pre-order, each
  with the context the visitor receives. A Group is followed by its children in order, the
  offset growing by the size of each child that is not a bitfield middle; a Pointer by its
  pointee, with the Pointer as the base and the offset 0; a Union by its active option.
  \<open>stop\<close> says at which arguments the visitor sets the flag that suppresses the descent.
\<close>

fun visits :: "(Arg \<Rightarrow> bool) \<Rightarrow> Arg \<Rightarrow> ArgCtx \<Rightarrow> (Arg \<times> ArgCtx) list"
  and visitsInner :: "(Arg \<Rightarrow> bool) \<Rightarrow> Arg list \<Rightarrow> ArgCtx \<Rightarrow> (Arg \<times> ArgCtx) list"
where
  "visits stop (ConstArg t v) ctx = [(ConstArg t v, ctx)]"
| "visits stop (ResultArg t v) ctx = [(ResultArg t v, ctx)]"
| "visits stop (DataArg t d) ctx = [(DataArg t d, ctx)]"
| "visits stop (PointerArg t a vs None) ctx = [(PointerArg t a vs None, ctx)]"
| "visits stop (PointerArg t a vs (Some r)) ctx =
     (PointerArg t a vs (Some r), ctx) #
     (if stop (PointerArg t a vs (Some r)) then []
      else visits stop r (ctx\<lparr>Base := Some (PointerArg t a vs (Some r)), Offset := 0\<rparr>))"
| "visits stop (UnionArg t opt) ctx =
     (UnionArg t opt, ctx) # (if stop (UnionArg t opt) then [] else visits stop opt ctx)"
| "visits stop (GroupArg t inner) ctx =
     (GroupArg t inner, ctx) #
     (if stop (GroupArg t inner) then []
      else visitsInner stop inner
             (case Kind t of StructType al fs \<Rightarrow> ctx\<lparr>Parent := Some inner\<rparr> | _ \<Rightarrow> ctx))"
| "visitsInner stop [] ctx = []"
| "visitsInner stop (x # xs) ctx =
     visits stop x ctx @
     visitsInner stop xs
       (if BitfieldMiddle (TypeOf x) then ctx else ctx\<lparr>Offset := Offset ctx + Size x\<rparr>)"

definition never :: "Arg \<Rightarrow> bool" where
  "never a = False"

definition visitsCall :: "(Arg \<Rightarrow> bool) \<Rightarrow> Call \<Rightarrow> (Arg \<times> ArgCtx) list" where
  "visitsCall stop c =
     (case Ret c of Some r \<Rightarrow> visits stop r ArgCtx0 | None \<Rightarrow> []) @
     concat (map (\<lambda>a. visits stop a (ArgCtx0\<lparr>Parent := Some (Args c)\<rparr>)) (Args c))"

text \<open>The Group size invariant of section 3: the sizes of the children that are not a
  bitfield middle sum to the declared size of a fixed-length group, and to at most the
  size of a variable-length one.\<close>

definition fieldsSize :: "Arg list \<Rightarrow> u64" where
  "fieldsSize inner = sum_list (map Size (filter (\<lambda>fld. \<not> BitfieldMiddle (TypeOf fld)) inner))"

definition groupSizeOK :: "Type \<Rightarrow> Arg list \<Rightarrow> bool" where
  "groupSizeOK t inner =
     (if IsVarlen t then fieldsSize inner \<le> Size (GroupArg t inner)
      else fieldsSize inner = Size (GroupArg t inner))"

text \<open>The invariant at every group the traversal descends into.\<close>

fun groupsOK :: "(Arg \<Rightarrow> bool) \<Rightarrow> Arg \<Rightarrow> bool" where
  "groupsOK stop (GroupArg t inner) =
     (if stop (GroupArg t inner) then True
      else list_all (groupsOK stop) inner \<and> groupSizeOK t inner)"
| "groupsOK stop (PointerArg t a vs (Some r)) =
     (if stop (PointerArg t a vs (Some r)) then True else groupsOK stop r)"
| "groupsOK stop (UnionArg t opt) =
     (if stop (UnionArg t opt) then True else groupsOK stop opt)"
| "groupsOK stop a = True"

definition groupsOKCall :: "(Arg \<Rightarrow> bool) \<Rightarrow> Call \<Rightarrow> bool" where
  "groupsOKCall stop c =
     ((case Ret c of Some r \<Rightarrow> groupsOK stop r | None \<Rightarrow> True) \<and> list_all (groupsOK stop) (Args c))"

text \<open>A visitor that leaves the context alone but for the flag, which it sets at the
  arguments \<open>stop\<close> picks, and that updates its state by \<open>g\<close>: every callback of the source
  is one.\<close>

definition visitor :: "(Arg \<Rightarrow> bool) \<Rightarrow> (Arg \<Rightarrow> ArgCtx \<Rightarrow> 's \<Rightarrow> error + 's) \<Rightarrow> 's callback" where
  "visitor stop g arg ctx s =
     (case g arg ctx s of
        Inl e \<Rightarrow> Inl e
      | Inr s1 \<Rightarrow> Inr (if stop arg then ctx\<lparr>Stop := True\<rparr> else ctx, s1))"

text \<open>Running a visitor over a sequence of visits, stopping at the first panic.\<close>

fun foldE :: "(Arg \<Rightarrow> ArgCtx \<Rightarrow> 's \<Rightarrow> error + 's) \<Rightarrow> (Arg \<times> ArgCtx) list \<Rightarrow> 's \<Rightarrow> error + 's" where
  "foldE g [] s = Inr s"
| "foldE g ((a, ctx) # vs) s = (case g a ctx s of Inl e \<Rightarrow> Inl e | Inr s1 \<Rightarrow> foldE g vs s1)"


section \<open>Analysis\<close>

text \<open>The target: pointer width, page size and page count, and the seven ANY descriptors
  that \<^verbatim>\<open>initAnyTypes\<close> sets. Two helpers of the source are not among the sources and
  are parameters here: \<^verbatim>\<open>ConstArg.ValueForProc\<close> (the value of a scalar for a process)
  and \<^verbatim>\<open>Target.PhysicalAddr\<close> (the address a pointer stands for).\<close>

record Target =
  PtrSize :: u64
  PageSize :: u64
  NumPages :: u64
  anyUnion :: Type
  anyArray :: Type
  anyBlob :: Type
  anyPtrPtr :: Type
  anyPtr64 :: Type
  anyRes32 :: Type
  anyRes64 :: Type
  ValueForProc :: "Arg \<Rightarrow> u64 \<Rightarrow> u64"
  PhysicalAddr :: "Arg \<Rightarrow> u64"

text \<open>Modelled from the spec: the two allocators (section 6) take one-way reservations
  and answer nothing; \<open>ma\<close> and \<open>va\<close> are the ranges noted so far, in order. The maps
  \<^verbatim>\<open>files\<close> and \<^verbatim>\<open>strings\<close> only ever store \<^verbatim>\<open>true\<close>: they are sets. A kind that
  \<^verbatim>\<open>resources\<close> has no entry for reads as the nil slice. The choice table is stored and
  never read; it is left out.\<close>

record state =
  target :: Target
  files :: "byte list set"
  resources :: "string \<Rightarrow> Arg list"
  strings :: "byte list set"
  ma :: "(u64 \<times> u64) list"
  va :: "(u64 \<times> u64) list"

definition newState :: "Target \<Rightarrow> state" where
  "newState tg =
     \<lparr>target = tg, files = {}, resources = (\<lambda>name. []), strings = {}, ma = [], va = []\<rparr>"

text \<open>The first switch of the callback of \<^verbatim>\<open>state.analyze\<close>. Go panics on an integer
  division by zero and on a method call on a nil interface (\<^verbatim>\<open>a.Res.Size()\<close>).\<close>

definition notePointer :: "Arg \<Rightarrow> state \<Rightarrow> error + state" where
  "notePointer arg s =
     (case arg of
        PointerArg t address vmaSize res \<Rightarrow>
          if IsNull arg then Inr s
          else if vmaSize \<noteq> 0 then
            (if PageSize (target s) = 0 then Inl DivideByZero
             else Inr (s\<lparr>va := va s @ [(address div PageSize (target s),
                                           vmaSize div PageSize (target s))]\<rparr>))
          else (case res of
                  None \<Rightarrow> Inl NilDereference
                | Some r \<Rightarrow> Inr (s\<lparr>ma := ma s @ [(address, Size r)]\<rparr>))
      | _ \<Rightarrow> Inr s)"

text \<open>The second switch, on the type of the argument. \<^verbatim>\<open>arg.(*DataArg)\<close> panics when
  an argument of buffer type is not a Data argument.\<close>

definition noteType :: "Arg \<Rightarrow> state \<Rightarrow> error + state" where
  "noteType arg s =
     (case Kind (TypeOf arg) of
        ResourceType desc \<Rightarrow>
          if ArgDir (TypeOf arg) \<noteq> DirIn
          then Inr (s\<lparr>resources := (resources s)(Name desc := resources s (Name desc) @ [arg])\<rparr>)
          else Inr s
      | BufferType kind \<Rightarrow>
          (case arg of
             DataArg t dat \<Rightarrow>
               if ArgDir (TypeOf arg) \<noteq> DirOut \<and> length dat \<noteq> 0
               then (case kind of
                       BufferString \<Rightarrow> Inr (s\<lparr>strings := insert dat (strings s)\<rparr>)
                     | BufferFilename \<Rightarrow> Inr (s\<lparr>files := insert dat (files s)\<rparr>)
                     | _ \<Rightarrow> Inr s)
               else Inr s
           | _ \<Rightarrow> Inl TypeAssertion)
      | _ \<Rightarrow> Inr s)"

definition analyzeArg :: "Arg \<Rightarrow> ArgCtx \<Rightarrow> state \<Rightarrow> error + state" where
  "analyzeArg arg ctx s = (case notePointer arg s of Inl e \<Rightarrow> Inl e | Inr s1 \<Rightarrow> noteType arg s1)"

definition analyzeCallback :: "state callback" where
  "analyzeCallback arg ctx s =
     (case analyzeArg arg ctx s of Inl e \<Rightarrow> Inl e | Inr s1 \<Rightarrow> Inr (ctx, s1))"

definition state_analyze :: "state \<Rightarrow> Call \<Rightarrow> error + state" where
  "state_analyze s c = ForeachArg c analyzeCallback s"

text \<open>A program holds pointers to its calls, and \<^verbatim>\<open>analyze\<close> compares pointers
  (\<^verbatim>\<open>c1 == c\<close>): a call of the program is its address with the call at it.\<close>

type_synonym call_ptr = nat

record Prog =
  Target :: Target
  Calls :: "(call_ptr \<times> Call) list"

fun analyzeCalls :: "state \<Rightarrow> (call_ptr \<times> Call) list \<Rightarrow> call_ptr \<Rightarrow> error + state" where
  "analyzeCalls s [] c = Inr s"
| "analyzeCalls s ((p1, c1) # rest) c =
     (if p1 = c then Inr s
      else case state_analyze s c1 of
             Inl e \<Rightarrow> Inl e
           | Inr s1 \<Rightarrow> analyzeCalls s1 rest c)"

definition analyze :: "Prog \<Rightarrow> call_ptr \<Rightarrow> error + state" where
  "analyze p c = analyzeCalls (newState (Target p)) (Calls p) c"

section \<open>Required features\<close>

definition featuresCallback :: "(bool \<times> bool) callback" where
  "featuresCallback arg ctx s =
     (let (bitmasks, csums) = s;
          bitmasks1 = (case arg of
                         ConstArg t v \<Rightarrow>
                           if BitfieldOffset (TypeOf arg) \<noteq> 0 \<or> BitfieldLength (TypeOf arg) \<noteq> 0
                           then True else bitmasks
                       | _ \<Rightarrow> bitmasks);
          csums1 = (case Kind (TypeOf arg) of CsumType c \<Rightarrow> True | _ \<Rightarrow> csums)
      in Inr (ctx, (bitmasks1, csums1)))"

fun featuresCalls :: "(call_ptr \<times> Call) list \<Rightarrow> bool \<times> bool \<Rightarrow> error + (bool \<times> bool)" where
  "featuresCalls [] s = Inr s"
| "featuresCalls ((p1, c) # rest) s =
     (case ForeachArg c featuresCallback s of
        Inl e \<Rightarrow> Inl e
      | Inr s1 \<Rightarrow> featuresCalls rest s1)"

definition RequiredFeatures :: "Prog \<Rightarrow> error + (bool \<times> bool)" where
  "RequiredFeatures p = featuresCalls (Calls p) (False, False)"


section \<open>The ANY encoding\<close>

definition createResource :: "string \<Rightarrow> string \<Rightarrow> u64 \<Rightarrow> Type" where
  "createResource name base sz =
     \<lparr>TypeName = name, FldName = name, TypeSize = sz, ArgDir = DirIn, IsOptional = True,
      IsVarlen = False,
      Kind = ResourceType \<lparr>Name = name, DescKind = [name], Values = [- 1, 0],
                            BaseName = base, BaseSize = sz\<rparr>\<rparr>"

text \<open>Fields that the source does not set have Go's zero value.\<close>

definition initAnyTypes :: "Target \<Rightarrow> Target" where
  "initAnyTypes tg = tg
     \<lparr>anyUnion :=
        \<lparr>TypeName = ''ANYUNION'', FldName = ''ANYUNION'', TypeSize = 0, ArgDir = DirIn,
         IsOptional = False, IsVarlen = True,
         Kind = UnionType [AnyBlobAddr, AnyPtrPtrAddr, AnyPtr64Addr, AnyRes32Addr, AnyRes64Addr]\<rparr>,
      anyArray :=
        \<lparr>TypeName = ''ANYARRAY'', FldName = ''ANYARRAY'', TypeSize = 0, ArgDir = DirIn,
         IsOptional = False, IsVarlen = True, Kind = ArrayType AnyUnionAddr\<rparr>,
      anyPtrPtr :=
        \<lparr>TypeName = ''ptr'', FldName = ''ANYPTR'', TypeSize = PtrSize tg, ArgDir = DirIn,
         IsOptional = True, IsVarlen = False, Kind = PtrType AnyArrayAddr\<rparr>,
      anyPtr64 :=
        \<lparr>TypeName = ''ptr64'', FldName = ''ANYPTR64'', TypeSize = 8, ArgDir = DirIn,
         IsOptional = True, IsVarlen = False, Kind = PtrType AnyArrayAddr\<rparr>,
      anyBlob :=
        \<lparr>TypeName = ''ANYBLOB'', FldName = ''ANYBLOB'', TypeSize = 0, ArgDir = DirIn,
         IsOptional = False, IsVarlen = True, Kind = BufferType BufferBlobRand\<rparr>,
      anyRes32 := createResource ''ANYRES32'' ''int32'' 4,
      anyRes64 := createResource ''ANYRES64'' ''int64'' 8\<rparr>"

text \<open>The descriptor at an address, for the addresses of the ANY descriptors; what the
  generated tables hold is not known here.\<close>

fun typeAt :: "Target \<Rightarrow> type_addr \<Rightarrow> Type option" where
  "typeAt tg AnyUnionAddr = Some (anyUnion tg)"
| "typeAt tg AnyArrayAddr = Some (anyArray tg)"
| "typeAt tg AnyBlobAddr = Some (anyBlob tg)"
| "typeAt tg AnyPtrPtrAddr = Some (anyPtrPtr tg)"
| "typeAt tg AnyPtr64Addr = Some (anyPtr64 tg)"
| "typeAt tg AnyRes32Addr = Some (anyRes32 tg)"
| "typeAt tg AnyRes64Addr = Some (anyRes64 tg)"
| "typeAt tg (DescAddr n) = None"

definition makeAnyPtrType :: "Target \<Rightarrow> u64 \<Rightarrow> string \<Rightarrow> error + Type" where
  "makeAnyPtrType tg sz field =
     (if sz = PtrSize tg
      then Inr ((anyPtrPtr tg)\<lparr>TypeSize := sz, FldName := (if field \<noteq> [] then field else FldName (anyPtrPtr tg))\<rparr>)
      else if sz = 8
      then Inr ((anyPtr64 tg)\<lparr>TypeSize := sz, FldName := (if field \<noteq> [] then field else FldName (anyPtr64 tg))\<rparr>)
      else Inl BadPointerSize)"

text \<open>\<^verbatim>\<open>ptr.Type == target.anyArray\<close> compares addresses.\<close>

definition isAnyPtr :: "Target \<Rightarrow> Type \<Rightarrow> bool" where
  "isAnyPtr tg t = (case Kind t of PtrType elem \<Rightarrow> elem = AnyArrayAddr | _ \<Rightarrow> False)"

text \<open>The callback of \<^verbatim>\<open>isComplexPtr\<close>; its state is \<^verbatim>\<open>res\<close>. An argument of the tree
  is compared with the pointer by its value: arguments form a tree, and no argument is
  below itself.\<close>

definition complexCallback :: "Arg \<Rightarrow> bool callback" where
  "complexCallback arg a1 ctx res =
     (case Kind (TypeOf a1) of
        StructType al fs \<Rightarrow>
          if IsVarlen (TypeOf a1) then Inr (ctx\<lparr>Stop := True\<rparr>, True) else Inr (ctx, res)
      | UnionType fs \<Rightarrow>
          if IsVarlen (TypeOf a1) \<and> length fs > 5 then Inr (ctx\<lparr>Stop := True\<rparr>, True)
          else Inr (ctx, res)
      | PtrType elem \<Rightarrow>
          if a1 \<noteq> arg then Inr (ctx\<lparr>Stop := True\<rparr>, res) else Inr (ctx, res)
      | _ \<Rightarrow> Inr (ctx, res))"

text \<open>The parameter of \<^verbatim>\<open>isComplexPtr\<close> and of \<^verbatim>\<open>squashPtr\<close> is a \<^verbatim>\<open>*PointerArg\<close>: the
  two functions are given for pointer arguments only.\<close>

fun isComplexPtr :: "Target \<Rightarrow> Arg \<Rightarrow> error + bool" where
  "isComplexPtr tg (PointerArg t address vmaSize res) =
     (case res of
        None \<Rightarrow> Inr False
      | Some r \<Rightarrow>
          if ArgDir t \<noteq> DirIn then Inr False
          else if isAnyPtr tg t then Inr True
          else ForeachSubArg r (complexCallback (PointerArg t address vmaSize res)) False)"

subsection \<open>Squashing\<close>

definition MakeUnionArg :: "Type \<Rightarrow> Arg \<Rightarrow> Arg" where
  "MakeUnionArg t opt = UnionArg t opt"

definition MakeGroupArg :: "Type \<Rightarrow> Arg list \<Rightarrow> Arg" where
  "MakeGroupArg t inner = GroupArg t inner"

definition MakeDataArg :: "Type \<Rightarrow> byte list \<Rightarrow> Arg" where
  "MakeDataArg t dat = DataArg t dat"

text \<open>\<^verbatim>\<open>ensureDataElem\<close> returns a pointer to the Data argument that is the option of
  the last element; the element list it leaves has that blob last. The two type
  assertions on the last element panic when it is no union.\<close>

definition ensureDataElem :: "Target \<Rightarrow> Arg list \<Rightarrow> error + Arg list" where
  "ensureDataElem tg elems =
     (if length elems = 0
      then Inr (elems @ [MakeUnionArg (anyUnion tg) (MakeDataArg (anyBlob tg) [])])
      else case last elems of
             UnionArg t opt \<Rightarrow>
               (case opt of
                  DataArg bt dat \<Rightarrow> Inr elems
                | _ \<Rightarrow> Inr (elems @ [MakeUnionArg (anyUnion tg) (MakeDataArg (anyBlob tg) [])]))
           | _ \<Rightarrow> Inl TypeAssertion)"

text \<open>\<^verbatim>\<open>elem.data = ...\<close> writes through that pointer: the content of the blob that is
  last in the list changes.\<close>

definition setData :: "(byte list \<Rightarrow> byte list) \<Rightarrow> Arg list \<Rightarrow> Arg list" where
  "setData upd elems =
     (case last elems of
        UnionArg t (DataArg bt dat) \<Rightarrow> butlast elems @ [UnionArg t (DataArg bt (upd dat))]
      | _ \<Rightarrow> elems)"

text \<open>The loop \<^verbatim>\<open>for i := uint64(0); i < n; i++\<close> that appends the low byte of \<open>v\<close> and
  shifts \<open>v\<close> right by 8.\<close>

fun appendBytes :: "nat \<Rightarrow> u64 \<Rightarrow> byte list \<Rightarrow> byte list" where
  "appendBytes 0 v dat = dat"
| "appendBytes (Suc n) v dat = appendBytes n (drop_bit 8 v) (dat @ [ucast v])"

text \<open>The end of \<^verbatim>\<open>squashPtrImpl\<close>. \<^verbatim>\<open>make([]byte, pad)\<close> panics when \<open>pad\<close> does not
  fit Go's \<^verbatim>\<open>int\<close>, which has 64 bits on the targets of the descriptor tables.\<close>

definition appendPad :: "Target \<Rightarrow> u64 \<Rightarrow> Arg list \<Rightarrow> error + Arg list" where
  "appendPad tg pad elems =
     (if pad \<noteq> 0
      then (case ensureDataElem tg elems of
              Inl e \<Rightarrow> Inl e
            | Inr elems1 \<Rightarrow>
                if pad \<ge> 2 ^ 63 then Inl MakesliceLen
                else Inr (setData (\<lambda>dat. dat @ replicate (unat pad) 0) elems1))
      else Inr elems)"

text \<open>The padding of a variable-length struct with an alignment attribute.\<close>

definition alignPad :: "Type \<Rightarrow> Arg list \<Rightarrow> u64" where
  "alignPad t inner =
     (case Kind t of
        StructType alignAttr fs \<Rightarrow>
          if IsVarlen t \<and> alignAttr \<noteq> 0
          then (let fieldsSize = sum_list (map Size (filter (\<lambda>fld. \<not> BitfieldMiddle (TypeOf fld)) inner))
                in if fieldsSize mod alignAttr \<noteq> 0 then alignAttr - fieldsSize mod alignAttr else 0)
          else 0
      | _ \<Rightarrow> 0)"

text \<open>\<^verbatim>\<open>squashPtr\<close> returns the pointer argument as it has changed it, \<^verbatim>\<open>squashPtrImpl\<close> the
  element list; \<open>squashFields\<close> is the loop over \<^verbatim>\<open>arg.Inner\<close>. The pointee type of the
  new pointer type is read back from the descriptor at its address.\<close>

function (sequential) squashPtr :: "Target \<Rightarrow> Arg \<Rightarrow> bool \<Rightarrow> error + Arg"
  and squashPtrImpl :: "Target \<Rightarrow> Arg \<Rightarrow> Arg list \<Rightarrow> error + Arg list"
  and squashFields :: "Target \<Rightarrow> Arg list \<Rightarrow> Arg list \<Rightarrow> error + Arg list"
where
  "squashPtr tg (PointerArg t address vmaSize res) preserveField =
     (case res of
        None \<Rightarrow> Inl BadPtrArg
      | Some res0 \<Rightarrow>
          if vmaSize \<noteq> 0 then Inl BadPtrArg
          else (let size0 = Size res0
                in case squashPtrImpl tg res0 [] of
                     Inl e \<Rightarrow> Inl e
                   | Inr elems \<Rightarrow>
                       (let field = (if preserveField then FldName t else [])
                        in case makeAnyPtrType tg (TypeSize t) field of
                             Inl e \<Rightarrow> Inl e
                           | Inr t1 \<Rightarrow>
                               (case Kind t1 of
                                  PtrType elem \<Rightarrow>
                                    (case typeAt tg elem of
                                       None \<Rightarrow> Inl NilDereference
                                     | Some et \<Rightarrow>
                                         (let res1 = MakeGroupArg et elems
                                          in if Size res1 \<noteq> size0 then Inl SquashChangedSize
                                             else Inr (PointerArg t1 address vmaSize (Some res1))))
                                | _ \<Rightarrow> Inl TypeAssertion))))"
| "squashPtrImpl tg a elems =
     (if BitfieldMiddle (TypeOf a) then Inl BitfieldInSquash
      else case (case a of
              ConstArg t v \<Rightarrow>
                if IsPad (TypeOf a) then Inr (Size a, elems)
                else (let v1 = ValueForProc tg a 0
                      in case ensureDataElem tg elems of
                           Inl e \<Rightarrow> Inl e
                         | Inr elems1 \<Rightarrow> Inr (0, setData (appendBytes (unat (Size a)) v1) elems1))
            | ResultArg t v \<Rightarrow>
                if Size a = 4 then Inr (0, elems @ [MakeUnionArg (anyUnion tg) (ResultArg (anyRes32 tg) v)])
                else if Size a = 8 then Inr (0, elems @ [MakeUnionArg (anyUnion tg) (ResultArg (anyRes64 tg) v)])
                else Inl BadSize
            | PointerArg t address vmaSize res \<Rightarrow>
                (case res of
                   Some r \<Rightarrow>
                     (case squashPtr tg a False of
                        Inl e \<Rightarrow> Inl e
                      | Inr a1 \<Rightarrow> Inr (0, elems @ [MakeUnionArg (anyUnion tg) a1]))
                 | None \<Rightarrow>
                     (case ensureDataElem tg elems of
                        Inl e \<Rightarrow> Inl e
                      | Inr elems1 \<Rightarrow>
                          Inr (0, setData (appendBytes (unat (Size a)) (PhysicalAddr tg a)) elems1)))
            | UnionArg t opt \<Rightarrow>
                (let pad = (if \<not> IsVarlen (TypeOf a) then Size a - Size opt else 0)
                 in case squashPtrImpl tg opt elems of
                      Inl e \<Rightarrow> Inl e
                    | Inr elems1 \<Rightarrow> Inr (pad, elems1))
            | DataArg t dat \<Rightarrow>
                if ArgDir (TypeOf a) = DirOut then Inr (Size a, elems)
                else (case ensureDataElem tg elems of
                        Inl e \<Rightarrow> Inl e
                      | Inr elems1 \<Rightarrow> Inr (0, setData (\<lambda>d. d @ dat) elems1))
            | GroupArg t inner \<Rightarrow>
                (let pad = alignPad (TypeOf a) inner
                 in case squashFields tg inner elems of
                      Inl e \<Rightarrow> Inl e
                    | Inr elems1 \<Rightarrow> Inr (pad, elems1))) of
             Inl e \<Rightarrow> Inl e
           | Inr (pad, elems1) \<Rightarrow> appendPad tg pad elems1)"
| "squashFields tg [] elems = Inr elems"
| "squashFields tg (fld # rest) elems =
     (if BitfieldMiddle (TypeOf fld) then squashFields tg rest elems
      else case squashPtrImpl tg fld elems of
             Inl e \<Rightarrow> Inl e
           | Inr elems1 \<Rightarrow> squashFields tg rest elems1)"
  by pat_completeness auto
termination
  by (relation "measure (\<lambda>x. case x of
          Inl (tg, a, pf) \<Rightarrow> 2 * size a
        | Inr (Inl (tg, a, elems)) \<Rightarrow> 2 * size a + 1
        | Inr (Inr (tg, inner, elems)) \<Rightarrow> 2 * size_list size inner + 1)") auto


text \<open>The arguments reached from an argument, each once, parents before children and
  children in order: the children of a Group are its members, the child of a Pointer is
  its pointee when it has one, the child of a Union is its active option.\<close>

fun preorder :: "Arg \<Rightarrow> Arg list" where
  "preorder (GroupArg t inner) = GroupArg t inner # concat (map preorder inner)"
| "preorder (PointerArg t a vs (Some r)) = PointerArg t a vs (Some r) # preorder r"
| "preorder (UnionArg t opt) = UnionArg t opt # preorder opt"
| "preorder a = [a]"

definition preorderCall :: "Call \<Rightarrow> Arg list" where
  "preorderCall c =
     (case Ret c of Some r \<Rightarrow> preorder r | None \<Rightarrow> []) @ concat (map preorder (Args c))"

text \<open>A visitor that records what it is given.\<close>

definition recordVisit :: "Arg \<Rightarrow> ArgCtx \<Rightarrow> (Arg \<times> ArgCtx) list \<Rightarrow> error + (Arg \<times> ArgCtx) list" where
  "recordVisit a ctx vs = Inr (vs @ [(a, ctx)])"

text \<open>Section 4.3 in its own words: a scalar argument with a bitfield offset or length, an
  argument of the checksum kind, and the arguments of a whole program.\<close>

definition bitfieldConst :: "Arg \<Rightarrow> bool" where
  "bitfieldConst a =
     (case a of ConstArg t v \<Rightarrow> BitfieldOffset t \<noteq> 0 \<or> BitfieldLength t \<noteq> 0 | _ \<Rightarrow> False)"

definition csumTyped :: "Arg \<Rightarrow> bool" where
  "csumTyped a = (case Kind (TypeOf a) of CsumType c \<Rightarrow> True | _ \<Rightarrow> False)"

definition progArgs :: "Prog \<Rightarrow> Arg list" where
  "progArgs p = concat (map (\<lambda>pc. preorderCall (snd pc)) (Calls p))"

definition groupsOKProg :: "Prog \<Rightarrow> bool" where
  "groupsOKProg p = list_all (\<lambda>pc. groupsOKCall never (snd pc)) (Calls p)"

text \<open>What the callback of \<^verbatim>\<open>RequiredFeatures\<close> does to its two variables.\<close>

definition featuresArg :: "Arg \<Rightarrow> ArgCtx \<Rightarrow> bool \<times> bool \<Rightarrow> error + (bool \<times> bool)" where
  "featuresArg a ctx s = Inr (fst s \<or> bitfieldConst a, snd s \<or> csumTyped a)"

text \<open>Section 4.2 in its own words. The calls strictly before the call at \<open>c\<close>, and the
  arguments reached from them.\<close>

definition callsBefore :: "Prog \<Rightarrow> call_ptr \<Rightarrow> (call_ptr \<times> Call) list" where
  "callsBefore p c = takeWhile (\<lambda>pc. fst pc \<noteq> c) (Calls p)"

definition argsBefore :: "Prog \<Rightarrow> call_ptr \<Rightarrow> Arg list" where
  "argsBefore p c = concat (map (\<lambda>pc. preorderCall (snd pc)) (callsBefore p c))"

text \<open>The contents of the Data arguments of a semantic kind whose direction is not output.\<close>

definition inputData :: "BufferKind \<Rightarrow> Arg \<Rightarrow> bool" where
  "inputData kind a =
     (case a of DataArg t dat \<Rightarrow> Kind t = BufferType kind \<and> ArgDir t \<noteq> DirOut | _ \<Rightarrow> False)"

definition contents :: "Arg \<Rightarrow> byte list" where
  "contents a = (case a of DataArg t dat \<Rightarrow> dat | _ \<Rightarrow> [])"

definition dataContents :: "BufferKind \<Rightarrow> Arg list \<Rightarrow> byte list set" where
  "dataContents kind args = set (map contents (filter (inputData kind) args))"

text \<open>What keeps the callback of the analysis from panicking at an argument: a pointer
  that is not null has a VMA size (and the page size is not 0) or a pointee, and an
  argument of a buffer type is a Data argument.\<close>

definition argOK :: "Target \<Rightarrow> Arg \<Rightarrow> bool" where
  "argOK tg a =
     ((case a of
         PointerArg t address vmaSize res \<Rightarrow>
           IsNull a \<or> (if vmaSize \<noteq> 0 then PageSize tg \<noteq> 0 else res \<noteq> None)
       | _ \<Rightarrow> True) \<and>
      (case Kind (TypeOf a) of
         BufferType kind \<Rightarrow> (case a of DataArg t dat \<Rightarrow> True | _ \<Rightarrow> False)
       | _ \<Rightarrow> True))"

definition analyzable :: "Prog \<Rightarrow> call_ptr \<Rightarrow> bool" where
  "analyzable p c =
     (list_all (\<lambda>pc. groupsOKCall never (snd pc)) (callsBefore p c) \<and>
      list_all (argOK (Target p)) (argsBefore p c))"

text \<open>A later snapshot extends an earlier one.\<close>

definition extends :: "state \<Rightarrow> state \<Rightarrow> bool" where
  "extends s s' =
     (files s \<subseteq> files s' \<and> strings s \<subseteq> strings s' \<and>
      (\<forall>name. \<exists>more. resources s' name = resources s name @ more))"

text \<open>The complexity predicate of section 4.4 in its own words: a type that makes a
  subtree complex, and whether a subtree contains an argument of such a type, not looking
  below an argument of pointer type.\<close>

definition complexType :: "Type \<Rightarrow> bool" where
  "complexType t =
     (case Kind t of
        StructType al fs \<Rightarrow> IsVarlen t
      | UnionType fs \<Rightarrow> IsVarlen t \<and> length fs > 5
      | _ \<Rightarrow> False)"

definition ptrTyped :: "Type \<Rightarrow> bool" where
  "ptrTyped t = (case Kind t of PtrType elem \<Rightarrow> True | _ \<Rightarrow> False)"

fun containsComplex :: "Arg \<Rightarrow> bool" where
  "containsComplex (GroupArg t inner) =
     (complexType t \<or> (\<not> ptrTyped t \<and> list_ex containsComplex inner))"
| "containsComplex (PointerArg t a vs (Some r)) =
     (complexType t \<or> (\<not> ptrTyped t \<and> containsComplex r))"
| "containsComplex (UnionArg t opt) =
     (complexType t \<or> (\<not> ptrTyped t \<and> containsComplex opt))"
| "containsComplex a = complexType (TypeOf a)"

text \<open>Where the scan does not descend: below an argument that decides it and below a
  nested pointer.\<close>

definition stopsDescent :: "Arg \<Rightarrow> bool" where
  "stopsDescent a = (complexType (TypeOf a) \<or> ptrTyped (TypeOf a))"

text \<open>The callback of \<^verbatim>\<open>isComplexPtr\<close> as a visitor: where it sets the flag and what it
  does to \<^verbatim>\<open>res\<close>.\<close>

definition complexStop :: "Arg \<Rightarrow> Arg \<Rightarrow> bool" where
  "complexStop arg a1 = (complexType (TypeOf a1) \<or> ptrTyped (TypeOf a1) \<and> a1 \<noteq> arg)"

definition complexVisit :: "Arg \<Rightarrow> ArgCtx \<Rightarrow> bool \<Rightarrow> error + bool" where
  "complexVisit a1 ctx res = Inr (res \<or> complexType (TypeOf a1))"

subsection \<open>The contract of squashing\<close>

text \<open>Section 4.4 in its own words. An element is a byte blob when its option is Data
  (what \<^verbatim>\<open>ensureDataElem\<close> tests); an element over the ANY vocabulary is a union of the
  ANY union type whose option is a blob of the ANY blob type, a resource of one of the two
  placeholder types, or a pointer of one of the two ANY pointer types.\<close>

definition isBlob :: "Arg \<Rightarrow> bool" where
  "isBlob e = (case e of UnionArg t (DataArg bt dat) \<Rightarrow> True | _ \<Rightarrow> False)"

definition anyElem :: "Target \<Rightarrow> Arg \<Rightarrow> bool" where
  "anyElem tg e =
     (case e of
        UnionArg t opt \<Rightarrow>
          t = anyUnion tg \<and>
          (case opt of
             DataArg bt dat \<Rightarrow> bt = anyBlob tg
           | ResultArg rt v \<Rightarrow> rt = anyRes32 tg \<or> rt = anyRes64 tg
           | PointerArg pt address vmaSize res \<Rightarrow> pt = anyPtrPtr tg \<or> pt = anyPtr64 tg
           | _ \<Rightarrow> False)
      | _ \<Rightarrow> False)"

fun noAdjacentBlobs :: "Arg list \<Rightarrow> bool" where
  "noAdjacentBlobs (x # y # rest) = (\<not> (isBlob x \<and> isBlob y) \<and> noAdjacentBlobs (y # rest))"
| "noAdjacentBlobs elems = True"

text \<open>A sequence over the ANY vocabulary with no two blobs in a row.\<close>

definition anySeq :: "Target \<Rightarrow> Arg list \<Rightarrow> bool" where
  "anySeq tg elems = (list_all (anyElem tg) elems \<and> noAdjacentBlobs elems)"

definition blobElem :: "Target \<Rightarrow> byte list \<Rightarrow> Arg" where
  "blobElem tg dat = UnionArg (anyUnion tg) (DataArg (anyBlob tg) dat)"

text \<open>Bytes go to the open trailing blob: \<open>elems'\<close> is \<open>elems\<close> with \<open>bs\<close> appended to its
  last element when that is a blob, and with a new blob of \<open>bs\<close> after it otherwise.\<close>

definition putBytes :: "Target \<Rightarrow> byte list \<Rightarrow> Arg list \<Rightarrow> Arg list \<Rightarrow> bool" where
  "putBytes tg bs elems elems' =
     (\<exists>xs d. elems' = xs @ [blobElem tg (d @ bs)] \<and>
        (elems = xs @ [blobElem tg d] \<or>
         elems = xs \<and> d = [] \<and> (xs = [] \<or> \<not> isBlob (last xs))))"

text \<open>The leaves of a subtree in the order of the walk: the members of a group that are
  not a bitfield middle, the active option of a union, the pointee of a pointer; and
  those of them that are resources.\<close>

definition isResult :: "Arg \<Rightarrow> bool" where
  "isResult a = (case a of ResultArg t v \<Rightarrow> True | _ \<Rightarrow> False)"

fun squashLeaves :: "Arg \<Rightarrow> Arg list" where
  "squashLeaves (GroupArg t inner) =
     concat (map squashLeaves (filter (\<lambda>fld. \<not> BitfieldMiddle (TypeOf fld)) inner))"
| "squashLeaves (UnionArg t opt) = squashLeaves opt"
| "squashLeaves (PointerArg t a vs (Some r)) = squashLeaves r"
| "squashLeaves a = [a]"

definition resourceLeaves :: "Arg \<Rightarrow> Arg list" where
  "resourceLeaves a = filter isResult (squashLeaves a)"

text \<open>The placeholder of a resource leaf: the leaf with its type replaced by the
  placeholder type of its width; and a leaf whose width has a placeholder of that width.\<close>

definition placeholder :: "Target \<Rightarrow> Arg \<Rightarrow> Arg" where
  "placeholder tg a =
     (case a of
        ResultArg t v \<Rightarrow> ResultArg (if TypeSize t = 4 then anyRes32 tg else anyRes64 tg) v
      | _ \<Rightarrow> a)"

definition widthOK :: "Target \<Rightarrow> Arg \<Rightarrow> bool" where
  "widthOK tg x =
     (Size x = 4 \<and> TypeOf (placeholder tg x) = anyRes32 tg \<or>
      Size x = 8 \<and> TypeOf (placeholder tg x) = anyRes64 tg)"

text \<open>The resources in a list of elements, nested sequences included, in order; and the
  size of the list.\<close>

definition resourcesOf :: "Arg list \<Rightarrow> Arg list" where
  "resourcesOf elems = concat (map (\<lambda>e. filter isResult (preorder e)) elems)"

definition sizeOf :: "Arg list \<Rightarrow> u64" where
  "sizeOf elems = sum_list (map Size elems)"

text \<open>The number of bytes that the walk of a subtree adds to the sequence: the size of a
  leaf, the option of a union and the difference to the size of a fixed-length union, the
  members of a group that are not a bitfield middle and the alignment padding.\<close>

fun emitSize :: "Arg \<Rightarrow> u64" where
  "emitSize (GroupArg t inner) =
     sum_list (map emitSize (filter (\<lambda>fld. \<not> BitfieldMiddle (TypeOf fld)) inner)) + alignPad t inner"
| "emitSize (UnionArg t opt) =
     emitSize opt + (if \<not> IsVarlen t then TypeSize t - Size opt else 0)"
| "emitSize a = Size a"

text \<open>\<open>elems'\<close> is a sequence over the ANY vocabulary with \<open>n\<close> more bytes and the resources
  \<open>rs\<close> more than \<open>elems\<close>.\<close>

definition grows :: "Target \<Rightarrow> Arg list \<Rightarrow> Arg list \<Rightarrow> u64 \<Rightarrow> Arg list \<Rightarrow> bool" where
  "grows tg elems elems' n rs =
     (anySeq tg elems' \<and> resourcesOf elems' = resourcesOf elems @ rs \<and>
      sizeOf elems' = sizeOf elems + n)"

abbreviation (input) post :: "Target \<Rightarrow> Arg \<Rightarrow> Arg list \<Rightarrow> Arg list \<Rightarrow> bool" where
  "post tg a elems elems' \<equiv>
     grows (initAnyTypes tg) elems elems' (emitSize a)
       (map (placeholder (initAnyTypes tg)) (resourceLeaves a))"

text \<open>A well-formed subtree (section 3): every group has its size, and a bitfield middle
  occurs only among the fields of a struct.\<close>

definition isStruct :: "Type \<Rightarrow> bool" where
  "isStruct t = (case Kind t of StructType al fs \<Rightarrow> True | _ \<Rightarrow> False)"

fun bitfieldsOK :: "Arg \<Rightarrow> bool" where
  "bitfieldsOK (GroupArg t inner) =
     ((isStruct t \<or> list_all (\<lambda>fld. \<not> BitfieldMiddle (TypeOf fld)) inner) \<and>
      list_all bitfieldsOK inner)"
| "bitfieldsOK (PointerArg t a vs (Some r)) = bitfieldsOK r"
| "bitfieldsOK (UnionArg t opt) = bitfieldsOK opt"
| "bitfieldsOK a = True"

definition wellFormed :: "Arg \<Rightarrow> bool" where
  "wellFormed a = (groupsOK never a \<and> bitfieldsOK a)"

text \<open>What \<^verbatim>\<open>squashPtrImpl\<close> needs of a subtree to return: no argument it walks has a
  bitfield-middle type (those among the fields of a group are skipped), every resource has
  4 or 8 bytes, every pointer with a pointee has no VMA size and the size of a target
  pointer or 8 bytes, and every padding fits a slice length.\<close>

fun squashable :: "Target \<Rightarrow> Arg \<Rightarrow> bool" where
  "squashable tg (ConstArg t v) = (\<not> BitfieldMiddle t \<and> (IsPad t \<longrightarrow> TypeSize t < 2 ^ 63))"
| "squashable tg (ResultArg t v) = (\<not> BitfieldMiddle t \<and> (TypeSize t = 4 \<or> TypeSize t = 8))"
| "squashable tg (PointerArg t a vs None) = (\<not> BitfieldMiddle t)"
| "squashable tg (PointerArg t a vs (Some r)) =
     (\<not> BitfieldMiddle t \<and> vs = 0 \<and> (TypeSize t = PtrSize tg \<or> TypeSize t = 8) \<and> squashable tg r)"
| "squashable tg (DataArg t d) =
     (\<not> BitfieldMiddle t \<and> (ArgDir t = DirOut \<longrightarrow> Size (DataArg t d) < 2 ^ 63))"
| "squashable tg (GroupArg t inner) =
     (\<not> BitfieldMiddle t \<and> alignPad t inner < 2 ^ 63 \<and>
      list_all (squashable tg) (filter (\<lambda>fld. \<not> BitfieldMiddle (TypeOf fld)) inner))"
| "squashable tg (UnionArg t opt) =
     (\<not> BitfieldMiddle t \<and> (\<not> IsVarlen t \<longrightarrow> TypeSize t - Size opt < 2 ^ 63) \<and> squashable tg opt)"

section \<open>Example arguments\<close>

text \<open>A target with 8-byte pointers and the ANY descriptors set.\<close>

definition nilType :: Type where
  "nilType = \<lparr>TypeName = [], FldName = [], TypeSize = 0, ArgDir = DirIn, IsOptional = False,
               IsVarlen = False, Kind = VmaType\<rparr>"

definition exTarget0 :: Target where
  "exTarget0 =
     \<lparr>PtrSize = 8, PageSize = 4096, NumPages = 4096,
      anyUnion = nilType, anyArray = nilType, anyBlob = nilType, anyPtrPtr = nilType,
      anyPtr64 = nilType, anyRes32 = nilType, anyRes64 = nilType,
      ValueForProc = (\<lambda>a pid. case a of ConstArg t v \<Rightarrow> v | _ \<Rightarrow> 0),
      PhysicalAddr = (\<lambda>a. case a of PointerArg t address vs r \<Rightarrow> address | _ \<Rightarrow> 0)\<rparr>"

definition exTarget :: Target where
  "exTarget = initAnyTypes exTarget0"

definition mkType :: "string \<Rightarrow> u64 \<Rightarrow> Dir \<Rightarrow> bool \<Rightarrow> TypeKind \<Rightarrow> Type" where
  "mkType name sz dir varlen k =
     \<lparr>TypeName = name, FldName = name, TypeSize = sz, ArgDir = dir, IsOptional = False,
      IsVarlen = varlen, Kind = k\<rparr>"

definition fdDesc :: ResourceDesc where
  "fdDesc = \<lparr>Name = ''fd'', DescKind = [''fd''], Values = [- 1], BaseName = ''int32'', BaseSize = 4\<rparr>"

definition exInt32 :: Arg where
  "exInt32 = ConstArg (mkType ''int32'' 4 DirIn False (IntType noBitfield)) 0x11223344"

definition exFd :: "string \<Rightarrow> Dir \<Rightarrow> Arg" where
  "exFd field dir = ResultArg ((mkType ''fd'' 4 dir False (ResourceType fdDesc))\<lparr>FldName := field\<rparr>) 3"

definition exRes64 :: Arg where
  "exRes64 = ResultArg (mkType ''sock'' 8 DirIn False
     (ResourceType \<lparr>Name = ''sock'', DescKind = [''sock''], Values = [- 1], BaseName = ''int64'',
                    BaseSize = 8\<rparr>)) 5"

definition exString :: "Dir \<Rightarrow> byte list \<Rightarrow> Arg" where
  "exString dir dat = DataArg (mkType ''string'' 0 dir True (BufferType BufferString)) dat"

definition exFilename :: "byte list \<Rightarrow> Arg" where
  "exFilename dat = DataArg (mkType ''filename'' 0 DirIn True (BufferType BufferFilename)) dat"

text \<open>A fixed-length union of 8 bytes, its active option a 4-byte scalar.\<close>

definition exUnion :: Arg where
  "exUnion = UnionArg (mkType ''u'' 8 DirIn False (UnionType [DescAddr 1, DescAddr 2])) exInt32"

text \<open>A variable-length array of a resource and a string, behind a pointer.\<close>

definition exArray :: Arg where
  "exArray = GroupArg (mkType ''array'' 0 DirIn True (ArrayType (DescAddr 3)))
     [exRes64, exString DirIn [0x61, 0x62, 0x63]]"

definition exInnerPtr :: Arg where
  "exInnerPtr = PointerArg (mkType ''ptr'' 8 DirIn False (PtrType (DescAddr 4))) 0x40 0 (Some exArray)"

text \<open>A variable-length struct aligned to 8 bytes: a scalar, a resource, the union, the
  pointer and a filename of 3 bytes; its fields take 27 bytes and it takes 32.\<close>

definition exStruct :: Arg where
  "exStruct = GroupArg (mkType ''s'' 0 DirIn True (StructType 8 [DescAddr 5, DescAddr 6]))
     [exInt32, exFd ''fd'' DirIn, exUnion, exInnerPtr, exFilename [0x2f, 0x61, 0x62]]"

definition exPtr :: Arg where
  "exPtr = PointerArg (mkType ''ptr'' 8 DirIn False (PtrType (DescAddr 7))) 0x20 0 (Some exStruct)"

text \<open>A fixed-length struct that declares 8 bytes and holds one scalar of 4.\<close>

definition badStruct :: Arg where
  "badStruct = GroupArg (mkType ''bad'' 8 DirIn False (StructType 0 [DescAddr 8])) [exInt32]"

definition badPtr :: Arg where
  "badPtr = PointerArg (mkType ''ptr'' 8 DirIn False (PtrType (DescAddr 9))) 0x20 0 (Some badStruct)"

text \<open>A visitor that counts the arguments it sees.\<close>

definition countVisit :: "Arg \<Rightarrow> ArgCtx \<Rightarrow> nat \<Rightarrow> error + nat" where
  "countVisit a ctx n = Inr (Suc n)"

text \<open>A call that returns a descriptor, and a test for pointers.\<close>

definition exCall :: Call where
  "exCall = \<lparr>Meta = ''open'', Args = [exPtr, exInt32], Ret = Some (exFd ''ret'' DirOut)\<rparr>"

definition isPointer :: "Arg \<Rightarrow> bool" where
  "isPointer a = (case a of PointerArg t ad vs r \<Rightarrow> True | _ \<Rightarrow> False)"

text \<open>A scalar that is a bitfield (offset 2, length 3), a checksum, and a program of two
  calls, the second with the given arguments.\<close>

definition exBitfield :: Arg where
  "exBitfield = ConstArg (mkType ''int32'' 4 DirIn False
      (IntType \<lparr>BitfieldOff = 2, BitfieldLen = 3, BitfieldMdl = False\<rparr>)) 5"

definition exCsum :: Arg where
  "exCsum = ConstArg (mkType ''csum'' 2 DirIn False (CsumType noBitfield)) 0"

definition exProg :: "Arg list \<Rightarrow> Prog" where
  "exProg args = \<lparr>Target = exTarget, Calls = [(1, exCall), (2, \<lparr>Meta = ''write'', Args = args, Ret = None\<rparr>)]\<rparr>"

text \<open>Three calls with strings of every direction, one of them empty; and a program whose
  first call has an empty input string.\<close>

definition exProgS :: Prog where
  "exProgS = \<lparr>Target = exTarget, Calls =
     [(1, exCall),
      (2, \<lparr>Meta = ''write'', Args = [exString DirIn [], exString DirOut [0x7a], exString DirInOut [0x71]],
           Ret = Some (exFd ''ret'' DirOut)\<rparr>),
      (3, \<lparr>Meta = ''read'', Args = [exString DirIn [0x6c]], Ret = None\<rparr>)]\<rparr>"

definition exProgE :: Prog where
  "exProgE = \<lparr>Target = exTarget, Calls =
     [(1, \<lparr>Meta = ''write'', Args = [exString DirIn []], Ret = None\<rparr>),
      (2, \<lparr>Meta = ''read'', Args = [], Ret = None\<rparr>)]\<rparr>"

text \<open>Pointers to a subtree, a fixed-length struct of given fields, a variable-length
  union with a number of alternatives, a null pointer and a pointer that is already
  universal.\<close>

definition ptrTo :: "Dir \<Rightarrow> Arg \<Rightarrow> Arg" where
  "ptrTo dir r = PointerArg (mkType ''ptr'' 8 dir False (PtrType (DescAddr 10))) 0x80 0 (Some r)"

definition exFixedStruct :: "Arg list \<Rightarrow> Arg" where
  "exFixedStruct inner =
     GroupArg (mkType ''fixed'' (fieldsSize inner) DirIn False (StructType 0 (map DescAddr [0..<length inner]))) inner"

definition exVarUnion :: "nat \<Rightarrow> Arg" where
  "exVarUnion n = UnionArg (mkType ''vu'' 0 DirIn True (UnionType (map DescAddr [0..<n]))) exInt32"

definition exNullPtr :: Arg where
  "exNullPtr = PointerArg (mkType ''ptr'' 8 DirIn False (PtrType (DescAddr 10))) 0 0 None"

definition exAnyPtr :: Arg where
  "exAnyPtr = PointerArg (anyPtrPtr exTarget) 0x80 0
     (Some (GroupArg (anyArray exTarget)
        [UnionArg (anyUnion exTarget) (DataArg (anyBlob exTarget) [1, 2])]))"

text \<open>What squashing the example pointer gives, and a resource of 2 bytes.\<close>

definition exSquashed :: Arg where
  "exSquashed =
     PointerArg (anyPtrPtr exTarget) 0x20 0 (Some (GroupArg (anyArray exTarget)
       [blobElem exTarget [0x44, 0x33, 0x22, 0x11],
        UnionArg (anyUnion exTarget) (ResultArg (anyRes32 exTarget) 3),
        blobElem exTarget [0x44, 0x33, 0x22, 0x11, 0, 0, 0, 0],
        UnionArg (anyUnion exTarget)
          (PointerArg (anyPtrPtr exTarget) 0x40 0 (Some (GroupArg (anyArray exTarget)
             [UnionArg (anyUnion exTarget) (ResultArg (anyRes64 exTarget) 5),
              blobElem exTarget [0x61, 0x62, 0x63]]))),
        blobElem exTarget [0x2f, 0x61, 0x62, 0, 0, 0, 0, 0]]))"

definition exRes16 :: Arg where
  "exRes16 = ResultArg (mkType ''pid'' 2 DirIn False
     (ResourceType \<lparr>Name = ''pid'', DescKind = [''pid''], Values = [0], BaseName = ''int16'',
                    BaseSize = 2\<rparr>)) 9"

section \<open>The traversal runs the visitor along the visits\<close>

declare foreachArgImpl.simps [simp del]
lemmas Size_Group = Size.simps(5)
declare Size.simps(5) [simp del]

lemma foldE_append:
  "foldE g (xs @ ys) s = (case foldE g xs s of Inl e \<Rightarrow> Inl e | Inr s1 \<Rightarrow> foldE g ys s1)"
  by (induction xs arbitrary: s) (auto split: sum.splits)

lemma fieldsSize_Nil: "fieldsSize [] = 0"
  by (simp add: fieldsSize_def)

lemma fieldsSize_Cons:
  "fieldsSize (x # xs) = (if BitfieldMiddle (TypeOf x) then fieldsSize xs else Size x + fieldsSize xs)"
  by (simp add: fieldsSize_def)

lemma foreachInner_visits:
  assumes IH: "\<And>x ctx s. x \<in> set inner \<Longrightarrow> groupsOK stop x \<Longrightarrow> \<not> Stop ctx \<Longrightarrow>
     foreachArgImpl x ctx (visitor stop g) s = foldE g (visits stop x ctx) s"
    and ok: "list_all (groupsOK stop) inner" and ns: "\<not> Stop ctx"
  shows "foreachInner inner ctx tot (visitor stop g) s =
     (case foldE g (visitsInner stop inner ctx) s of
        Inl e \<Rightarrow> Inl e
      | Inr s1 \<Rightarrow> Inr (s1, tot + fieldsSize inner))"
  using assms
proof (induction inner arbitrary: ctx tot s)
  case Nil
  then show ?case by (simp add: fieldsSize_Nil)
next
  case (Cons x xs)
  have hx: "foreachArgImpl x ctx (visitor stop g) s = foldE g (visits stop x ctx) s"
    using Cons.prems by simp
  show ?case
  proof (cases "foldE g (visits stop x ctx) s")
    case (Inl e)
    then show ?thesis by (simp add: hx foldE_append)
  next
    case (Inr s1)
    have rest: "\<And>c t. \<not> Stop c \<Longrightarrow> foreachInner xs c t (visitor stop g) s1 =
       (case foldE g (visitsInner stop xs c) s1 of Inl e \<Rightarrow> Inl e
        | Inr s2 \<Rightarrow> Inr (s2, t + fieldsSize xs))"
      using Cons.IH Cons.prems by simp
    show ?thesis
      using Inr Cons.prems(3)
      by (simp add: hx foldE_append rest fieldsSize_Cons add.assoc Let_def split: sum.splits)
  qed
qed


lemma visitor_Inl: "g arg ctx s = Inl e \<Longrightarrow> foreachArgImpl arg ctx (visitor stop g) s = Inl e"
  by (subst foreachArgImpl.simps) (simp add: visitor_def)

lemma visitor_stop:
  "g arg ctx s = Inr s1 \<Longrightarrow> stop arg \<Longrightarrow> foreachArgImpl arg ctx (visitor stop g) s = Inr s1"
  by (subst foreachArgImpl.simps) (simp add: visitor_def)

lemma visitor_descend:
  "g arg ctx s = Inr s1 \<Longrightarrow> \<not> stop arg \<Longrightarrow> \<not> Stop ctx \<Longrightarrow>
   foreachArgImpl arg ctx (visitor stop g) s =
     (case arg of
        GroupArg t inner \<Rightarrow>
          (case foreachInner inner
                  (case Kind t of StructType al fs \<Rightarrow> ctx\<lparr>Parent := Some inner\<rparr> | _ \<Rightarrow> ctx)
                  0 (visitor stop g) s1 of
             Inl e \<Rightarrow> Inl e
           | Inr (s2, totalSize) \<Rightarrow>
               if IsVarlen t \<and> totalSize > Size arg \<or> \<not> IsVarlen t \<and> totalSize \<noteq> Size arg
               then Inl BadGroupArgSize else Inr s2)
      | PointerArg t a vs res \<Rightarrow>
          (case res of
             Some r \<Rightarrow> foreachArgImpl r (ctx\<lparr>Base := Some arg, Offset := 0\<rparr>) (visitor stop g) s1
           | None \<Rightarrow> Inr s1)
      | UnionArg t opt \<Rightarrow> foreachArgImpl opt ctx (visitor stop g) s1
      | _ \<Rightarrow> Inr s1)"
  by (subst foreachArgImpl.simps, cases arg)
     (simp_all add: visitor_def Let_def split: option.splits sum.splits prod.splits)

lemma foreachArgImpl_visits:
  "groupsOK stop a \<Longrightarrow> \<not> Stop ctx \<Longrightarrow>
   foreachArgImpl a ctx (visitor stop g) s = foldE g (visits stop a ctx) s"
proof (induction a arbitrary: ctx s)
  case (GroupArg t inner)
  show ?case
  proof (cases "g (GroupArg t inner) ctx s")
    case (Inl e)
    then show ?thesis by (simp add: visitor_Inl)
  next
    case (Inr s1)
    show ?thesis
    proof (cases "stop (GroupArg t inner)")
      case True
      then show ?thesis using Inr by (simp add: visitor_stop)
    next
      case False
      let ?ctx1 = "case Kind t of StructType al fs \<Rightarrow> ctx\<lparr>Parent := Some inner\<rparr> | _ \<Rightarrow> ctx"
      have ns: "\<not> Stop ?ctx1" using GroupArg.prems by (simp split: TypeKind.splits)
      have ok: "list_all (groupsOK stop) inner" and sz: "groupSizeOK t inner"
        using GroupArg.prems False by simp_all
      have inner: "foreachInner inner ?ctx1 0 (visitor stop g) s1 =
        (case foldE g (visitsInner stop inner ?ctx1) s1 of Inl e \<Rightarrow> Inl e
         | Inr s2 \<Rightarrow> Inr (s2, 0 + fieldsSize inner))"
        by (rule foreachInner_visits[OF GroupArg.IH ok ns])
      have "foreachArgImpl (GroupArg t inner) ctx (visitor stop g) s =
            foldE g (visitsInner stop inner ?ctx1) s1"
        using sz Inr False GroupArg.prems(2)
        by (auto simp: visitor_descend inner groupSizeOK_def split: sum.splits if_splits)
      then show ?thesis using Inr False by simp
    qed
  qed
next
  case (PointerArg t a vs r)
  show ?case
  proof (cases "g (PointerArg t a vs r) ctx s")
    case (Inl e)
    then show ?thesis by (cases r) (simp_all add: visitor_Inl)
  next
    case (Inr s1)
    show ?thesis
    proof (cases "stop (PointerArg t a vs r)")
      case True
      then show ?thesis using Inr by (cases r) (simp_all add: visitor_stop)
    next
      case False
      then show ?thesis using Inr PointerArg
        by (cases r) (simp_all add: visitor_descend)
    qed
  qed
next
  case (UnionArg t opt)
  show ?case
  proof (cases "g (UnionArg t opt) ctx s")
    case (Inl e)
    then show ?thesis by (simp add: visitor_Inl)
  next
    case (Inr s1)
    show ?thesis
    proof (cases "stop (UnionArg t opt)")
      case True
      then show ?thesis using Inr by (simp add: visitor_stop)
    next
      case False
      then show ?thesis using Inr UnionArg by (simp add: visitor_descend)
    qed
  qed
next
  case (ConstArg t v)
  then show ?case
    by (cases "g (ConstArg t v) ctx s"; cases "stop (ConstArg t v)")
       (simp_all add: visitor_Inl visitor_stop visitor_descend)
next
  case (ResultArg t v)
  then show ?case
    by (cases "g (ResultArg t v) ctx s"; cases "stop (ResultArg t v)")
       (simp_all add: visitor_Inl visitor_stop visitor_descend)
next
  case (DataArg t v)
  then show ?case
    by (cases "g (DataArg t v) ctx s"; cases "stop (DataArg t v)")
       (simp_all add: visitor_Inl visitor_stop visitor_descend)
qed


lemma foreachInner_ok:
  assumes IH: "\<And>x ctx s s'. x \<in> set inner \<Longrightarrow> \<not> Stop ctx \<Longrightarrow>
     foreachArgImpl x ctx (visitor stop g) s = Inr s' \<Longrightarrow> groupsOK stop x"
    and ns: "\<not> Stop ctx"
    and run: "foreachInner inner ctx tot (visitor stop g) s = Inr (s', tot')"
  shows "list_all (groupsOK stop) inner \<and> tot' = tot + fieldsSize inner"
  using assms
proof (induction inner arbitrary: ctx tot s)
  case Nil
  then show ?case by (simp add: fieldsSize_Nil)
next
  case (Cons x xs)
  from Cons.prems(3) obtain s1 where
    hx: "foreachArgImpl x ctx (visitor stop g) s = Inr s1"
    by (auto split: sum.splits)
  have okx: "groupsOK stop x" using Cons.prems(1)[OF _ Cons.prems(2) hx] by simp
  have IHxs: "\<And>c t s0. \<not> Stop c \<Longrightarrow> foreachInner xs c t (visitor stop g) s0 = Inr (s', tot') \<Longrightarrow>
     list_all (groupsOK stop) xs \<and> tot' = t + fieldsSize xs"
    using Cons.IH Cons.prems(1) by (meson list.set_intros(2))
  show ?case
  proof (cases "BitfieldMiddle (TypeOf x)")
    case True
    then have "foreachInner xs ctx tot (visitor stop g) s1 = Inr (s', tot')"
      using Cons.prems(3) hx by simp
    from IHxs[OF Cons.prems(2) this] show ?thesis using okx True by (simp add: fieldsSize_Cons)
  next
    case False
    then have "foreachInner xs (ctx\<lparr>Offset := Offset ctx + Size x\<rparr>) (tot + Size x) (visitor stop g) s1
       = Inr (s', tot')"
      using Cons.prems(3) hx by (simp add: Let_def)
    from IHxs[OF _ this] Cons.prems(2) show ?thesis using okx False
      by (simp add: fieldsSize_Cons add.assoc)
  qed
qed

lemma foreachArgImpl_ok:
  "\<not> Stop ctx \<Longrightarrow> foreachArgImpl a ctx (visitor stop g) s = Inr s' \<Longrightarrow> groupsOK stop a"
proof (induction a arbitrary: ctx s s')
  case (GroupArg t inner)
  show ?case
  proof (cases "stop (GroupArg t inner)")
    case True
    then show ?thesis by simp
  next
    case False
    from GroupArg.prems(2) obtain s1 where g1: "g (GroupArg t inner) ctx s = Inr s1"
      by (cases "g (GroupArg t inner) ctx s") (simp_all add: visitor_Inl)
    let ?ctx1 = "case Kind t of StructType al fs \<Rightarrow> ctx\<lparr>Parent := Some inner\<rparr> | _ \<Rightarrow> ctx"
    have ns: "\<not> Stop ?ctx1" using GroupArg.prems by (simp split: TypeKind.splits)
    from GroupArg.prems(2) obtain s2 tot where
      inner: "foreachInner inner ?ctx1 0 (visitor stop g) s1 = Inr (s2, tot)"
      and chk: "\<not> (IsVarlen t \<and> tot > Size (GroupArg t inner) \<or> \<not> IsVarlen t \<and> tot \<noteq> Size (GroupArg t inner))"
      using g1 False GroupArg.prems(1)
      by (auto simp: visitor_descend split: sum.splits if_splits)
    have "list_all (groupsOK stop) inner \<and> tot = 0 + fieldsSize inner"
      by (rule foreachInner_ok[OF GroupArg.IH ns inner])
    then show ?thesis using chk False by (auto simp: groupSizeOK_def)
  qed
next
  case (PointerArg t a vs r)
  show ?case
  proof (cases r)
    case None
    then show ?thesis by simp
  next
    case (Some r0)
    show ?thesis
    proof (cases "stop (PointerArg t a vs r)")
      case True
      then show ?thesis using Some by simp
    next
      case False
      from PointerArg.prems(2) obtain s1 where g1: "g (PointerArg t a vs r) ctx s = Inr s1"
        by (cases "g (PointerArg t a vs r) ctx s") (simp_all add: visitor_Inl)
      have "foreachArgImpl r0 (ctx\<lparr>Base := Some (PointerArg t a vs r), Offset := 0\<rparr>) (visitor stop g) s1 = Inr s'"
        using PointerArg.prems g1 False Some by (simp add: visitor_descend)
      moreover have "\<not> Stop (ctx\<lparr>Base := Some (PointerArg t a vs r), Offset := 0\<rparr>)"
        using PointerArg.prems(1) by simp
      ultimately have "groupsOK stop r0"
        using PointerArg.IH[of r0] Some by (metis option.set_intros)
      then show ?thesis using Some False by simp
    qed
  qed
next
  case (UnionArg t opt)
  show ?case
  proof (cases "stop (UnionArg t opt)")
    case True
    then show ?thesis by simp
  next
    case False
    from UnionArg.prems(2) obtain s1 where g1: "g (UnionArg t opt) ctx s = Inr s1"
      by (cases "g (UnionArg t opt) ctx s") (simp_all add: visitor_Inl)
    have "foreachArgImpl opt ctx (visitor stop g) s1 = Inr s'"
      using UnionArg.prems g1 False by (simp add: visitor_descend)
    then show ?thesis using UnionArg.IH UnionArg.prems(1) False by simp
  qed
qed simp_all

lemma groupsOK_never: "groupsOK never a \<Longrightarrow> groupsOK stop a"
proof (induction a)
  case (GroupArg t inner)
  then show ?case by (auto simp: never_def list_all_iff)
next
  case (PointerArg t a vs r)
  then show ?case by (cases r) (auto simp: never_def)
next
  case (UnionArg t opt)
  then show ?case by (auto simp: never_def)
qed simp_all

lemma foldE_no_error:
  "(\<And>x c s. g x c s \<noteq> Inl e) \<Longrightarrow> foldE g vs s \<noteq> Inl e"
  by (induction vs arbitrary: s) (auto split: sum.splits)


lemma visitsInner_preorder:
  assumes "\<And>x ctx. x \<in> set inner \<Longrightarrow> map fst (visits stop x ctx) = preorder x"
  shows "map fst (visitsInner stop inner ctx) = concat (map preorder inner)"
  using assms by (induction inner arbitrary: ctx) simp_all

lemma visits_preorder_gen:
  assumes ns: "\<And>x. \<not> stop x"
  shows "map fst (visits stop a ctx) = preorder a"
proof (induction a arbitrary: ctx)
  case (GroupArg t inner)
  then show ?case by (simp add: ns visitsInner_preorder)
next
  case (PointerArg t a vs r)
  then show ?case by (cases r) (simp_all add: ns)
next
  case (UnionArg t opt)
  then show ?case by (simp add: ns)
qed simp_all

lemma visits_preorder: "map fst (visits never a ctx) = preorder a"
  by (rule visits_preorder_gen) (simp add: never_def)

lemma visitsCall_preorder: "map fst (visitsCall never c) = preorderCall c"
  by (cases "Ret c") (simp_all add: visitsCall_def preorderCall_def visits_preorder map_concat comp_def)

lemma foreachArgs_visits:
  "list_all (groupsOK stop) args \<Longrightarrow> \<not> Stop ctx \<Longrightarrow>
   foreachArgs args ctx (visitor stop g) s = foldE g (concat (map (\<lambda>a. visits stop a ctx) args)) s"
  by (induction args arbitrary: s)
     (auto simp: foreachArgImpl_visits foldE_append split: sum.splits)

lemma ForeachArg_visits:
  "groupsOKCall stop c \<Longrightarrow> ForeachArg c (visitor stop g) s = foldE g (visitsCall stop c) s"
  by (cases "Ret c")
     (auto simp: ForeachArg_def groupsOKCall_def visitsCall_def foreachArgs_visits
        foreachArgImpl_visits foldE_append ArgCtx0_def split: sum.splits)

lemma foreachArgs_ok:
  "\<not> Stop ctx \<Longrightarrow> foreachArgs args ctx (visitor stop g) s = Inr s' \<Longrightarrow>
   list_all (groupsOK stop) args"
  by (induction args arbitrary: s) (auto split: sum.splits dest: foreachArgImpl_ok)

lemma ForeachArg_ok:
  "ForeachArg c (visitor stop g) s = Inr s' \<Longrightarrow> groupsOKCall stop c"
  by (cases "Ret c")
     (auto simp: ForeachArg_def groupsOKCall_def ArgCtx0_def Let_def split: sum.splits
        dest!: foreachArgImpl_ok[rotated] foreachArgs_ok[rotated])

text \<open>With a visitor that does not panic, the only panic is the check of a group.\<close>

lemma foreachInner_err:
  assumes IH: "\<And>x ctx s e. x \<in> set inner \<Longrightarrow> \<not> Stop ctx \<Longrightarrow>
     foreachArgImpl x ctx (visitor stop g) s = Inl e \<Longrightarrow> e = BadGroupArgSize"
    and ns: "\<not> Stop ctx"
    and run: "foreachInner inner ctx tot (visitor stop g) s = Inl e"
  shows "e = BadGroupArgSize"
  using assms
proof (induction inner arbitrary: ctx tot s)
  case Nil
  then show ?case by simp
next
  case (Cons x xs)
  show ?case
  proof (cases "foreachArgImpl x ctx (visitor stop g) s")
    case (Inl e1)
    then have "e1 = BadGroupArgSize" using Cons.prems(1)[of x ctx s e1] Cons.prems(2) by simp
    then show ?thesis using Inl Cons.prems(3) by simp
  next
    case (Inr s1)
    have IHxs: "\<And>c t s0. \<not> Stop c \<Longrightarrow> foreachInner xs c t (visitor stop g) s0 = Inl e \<Longrightarrow>
       e = BadGroupArgSize"
      using Cons.IH Cons.prems(1) by (meson list.set_intros(2))
    show ?thesis
    proof (cases "BitfieldMiddle (TypeOf x)")
      case True
      then show ?thesis using Cons.prems(2,3) Inr IHxs by simp
    next
      case False
      then have "foreachInner xs (ctx\<lparr>Offset := Offset ctx + Size x\<rparr>) (tot + Size x) (visitor stop g) s1 = Inl e"
        using Cons.prems(3) Inr by (simp add: Let_def)
      from IHxs[OF _ this] Cons.prems(2) show ?thesis by simp
    qed
  qed
qed

lemma foreachArgImpl_err:
  assumes tot: "\<And>x c s. \<exists>s1. g x c s = Inr s1"
  shows "\<not> Stop ctx \<Longrightarrow> foreachArgImpl a ctx (visitor stop g) s = Inl e \<Longrightarrow> e = BadGroupArgSize"
proof (induction a arbitrary: ctx s e)
  case (GroupArg t inner)
  obtain s1 where g1: "g (GroupArg t inner) ctx s = Inr s1" using tot by blast
  show ?case
  proof (cases "stop (GroupArg t inner)")
    case True
    then show ?thesis using GroupArg.prems g1 by (simp add: visitor_stop)
  next
    case False
    let ?ctx1 = "case Kind t of StructType al fs \<Rightarrow> ctx\<lparr>Parent := Some inner\<rparr> | _ \<Rightarrow> ctx"
    have ns: "\<not> Stop ?ctx1" using GroupArg.prems by (simp split: TypeKind.splits)
    show ?thesis
    proof (cases "foreachInner inner ?ctx1 0 (visitor stop g) s1")
      case (Inl e1)
      have "e1 = BadGroupArgSize" by (rule foreachInner_err[OF GroupArg.IH ns Inl])
      then show ?thesis using GroupArg.prems g1 False Inl by (simp add: visitor_descend)
    next
      case (Inr r)
      then show ?thesis using GroupArg.prems g1 False
        by (cases r) (auto simp: visitor_descend split: if_splits)
    qed
  qed
next
  case (PointerArg t a vs r)
  obtain s1 where g1: "g (PointerArg t a vs r) ctx s = Inr s1" using tot by blast
  show ?case
  proof (cases "stop (PointerArg t a vs r)")
    case True
    then show ?thesis using PointerArg.prems g1 by (simp add: visitor_stop)
  next
    case False
    show ?thesis
    proof (cases r)
      case None
      then show ?thesis using PointerArg.prems g1 False by (simp add: visitor_descend)
    next
      case (Some r0)
      have ns: "\<not> Stop (ctx\<lparr>Base := Some (PointerArg t a vs r), Offset := 0\<rparr>)"
        using PointerArg.prems(1) by simp
      have "foreachArgImpl r0 (ctx\<lparr>Base := Some (PointerArg t a vs r), Offset := 0\<rparr>) (visitor stop g) s1 = Inl e"
        using PointerArg.prems g1 False Some by (simp add: visitor_descend)
      with ns show ?thesis using PointerArg.IH[of r0] Some by (metis option.set_intros)
    qed
  qed
next
  case (UnionArg t opt)
  obtain s1 where g1: "g (UnionArg t opt) ctx s = Inr s1" using tot by blast
  show ?case
  proof (cases "stop (UnionArg t opt)")
    case True
    then show ?thesis using UnionArg.prems g1 by (simp add: visitor_stop)
  next
    case False
    have "foreachArgImpl opt ctx (visitor stop g) s1 = Inl e"
      using UnionArg.prems g1 False by (simp add: visitor_descend)
    then show ?thesis using UnionArg.IH UnionArg.prems(1) by simp
  qed
next
  case (ConstArg t v)
  obtain s1 where g1: "g (ConstArg t v) ctx s = Inr s1" using tot by blast
  then show ?case using ConstArg
    by (cases "stop (ConstArg t v)") (simp_all add: visitor_stop visitor_descend)
next
  case (ResultArg t v)
  obtain s1 where g1: "g (ResultArg t v) ctx s = Inr s1" using tot by blast
  then show ?case using ResultArg
    by (cases "stop (ResultArg t v)") (simp_all add: visitor_stop visitor_descend)
next
  case (DataArg t v)
  obtain s1 where g1: "g (DataArg t v) ctx s = Inr s1" using tot by blast
  then show ?case using DataArg
    by (cases "stop (DataArg t v)") (simp_all add: visitor_stop visitor_descend)
qed

lemma foreachArgImpl_total:
  assumes tot: "\<And>x c s. \<exists>s1. g x c s = Inr s1" and ns: "\<not> Stop ctx"
  shows "foreachArgImpl a ctx (visitor stop g) s =
     (if groupsOK stop a then foldE g (visits stop a ctx) s else Inl BadGroupArgSize)"
proof (cases "groupsOK stop a")
  case True
  then show ?thesis using ns by (simp add: foreachArgImpl_visits)
next
  case False
  show ?thesis
  proof (cases "foreachArgImpl a ctx (visitor stop g) s")
    case (Inl e)
    then show ?thesis using foreachArgImpl_err[OF tot ns Inl] False by simp
  next
    case (Inr s')
    then show ?thesis using foreachArgImpl_ok[OF ns Inr] False by simp
  qed
qed

lemma foreachArgs_err:
  assumes tot: "\<And>x c s. \<exists>s1. g x c s = Inr s1"
  shows "\<not> Stop ctx \<Longrightarrow> foreachArgs args ctx (visitor stop g) s = Inl e \<Longrightarrow> e = BadGroupArgSize"
  by (induction args arbitrary: s) (auto split: sum.splits dest: foreachArgImpl_err[OF tot])

lemma ForeachArg_err:
  assumes tot: "\<And>x c s. \<exists>s1. g x c s = Inr s1"
  shows "ForeachArg c (visitor stop g) s = Inl e \<Longrightarrow> e = BadGroupArgSize"
  by (cases "Ret c")
     (auto simp: ForeachArg_def ArgCtx0_def Let_def split: sum.splits
        dest!: foreachArgImpl_err[OF tot, rotated] foreachArgs_err[OF tot, rotated])

lemma ForeachArg_total:
  assumes tot: "\<And>x c s. \<exists>s1. g x c s = Inr s1"
  shows "ForeachArg c (visitor stop g) s =
     (if groupsOKCall stop c then foldE g (visitsCall stop c) s else Inl BadGroupArgSize)"
proof (cases "groupsOKCall stop c")
  case True
  then show ?thesis by (simp add: ForeachArg_visits)
next
  case False
  show ?thesis
  proof (cases "ForeachArg c (visitor stop g) s")
    case (Inl e)
    then show ?thesis using ForeachArg_err[OF tot Inl] False by simp
  next
    case (Inr s')
    then show ?thesis using ForeachArg_ok[OF Inr] False by simp
  qed
qed

lemma foldE_recordVisit: "foldE recordVisit vs acc = Inr (acc @ vs)"
  by (induction vs arbitrary: acc) (auto simp: recordVisit_def)

section \<open>The feature scan\<close>

lemma featuresCallback_visitor: "featuresCallback = visitor never featuresArg"
  by (rule ext)+
     (auto simp: featuresCallback_def visitor_def featuresArg_def never_def bitfieldConst_def
        csumTyped_def split: Arg.splits TypeKind.splits prod.splits)

lemma foldE_featuresArg:
  "foldE featuresArg vs s =
     Inr (fst s \<or> (\<exists>a\<in>set (map fst vs). bitfieldConst a), snd s \<or> (\<exists>a\<in>set (map fst vs). csumTyped a))"
  by (induction vs arbitrary: s) (auto simp: featuresArg_def)

lemma featuresArg_total: "\<exists>s1. featuresArg x c s = Inr s1"
  by (simp add: featuresArg_def)

lemma featuresCalls_eq:
  "featuresCalls cs s =
     (if list_all (\<lambda>pc. groupsOKCall never (snd pc)) cs
      then Inr (fst s \<or> (\<exists>a\<in>set (concat (map (\<lambda>pc. preorderCall (snd pc)) cs)). bitfieldConst a),
                snd s \<or> (\<exists>a\<in>set (concat (map (\<lambda>pc. preorderCall (snd pc)) cs)). csumTyped a))
      else Inl BadGroupArgSize)"
proof (induction cs arbitrary: s)
  case Nil
  then show ?case by simp
next
  case (Cons pc cs)
  obtain ptr c where pc: "pc = (ptr, c)" by (cases pc)
  have one: "ForeachArg c featuresCallback s =
     (if groupsOKCall never c
      then Inr (fst s \<or> (\<exists>a\<in>set (preorderCall c). bitfieldConst a),
                snd s \<or> (\<exists>a\<in>set (preorderCall c). csumTyped a))
      else Inl BadGroupArgSize)"
    using ForeachArg_total[of featuresArg c never s, OF featuresArg_total]
    by (simp add: featuresCallback_visitor foldE_featuresArg visitsCall_preorder)
  show ?case
    by (cases "groupsOKCall never c") (auto simp: pc one Cons.IH)
qed

section \<open>The analysis\<close>

lemma analyzeCallback_visitor: "analyzeCallback = visitor never analyzeArg"
  by (rule ext)+ (simp add: analyzeCallback_def visitor_def never_def)

lemma state_analyze_fold:
  "state_analyze s c = Inr s' \<Longrightarrow>
   groupsOKCall never c \<and> foldE analyzeArg (visitsCall never c) s = Inr s'"
  unfolding state_analyze_def analyzeCallback_visitor
  using ForeachArg_ok ForeachArg_visits by metis

lemma state_analyze_visits:
  "groupsOKCall never c \<Longrightarrow> state_analyze s c = foldE analyzeArg (visitsCall never c) s"
  unfolding state_analyze_def analyzeCallback_visitor by (rule ForeachArg_visits)

text \<open>One argument.\<close>

lemma analyzeArg_target: "analyzeArg a ctx s = Inr s' \<Longrightarrow> target s' = target s"
  by (auto simp: analyzeArg_def notePointer_def noteType_def
      split: sum.splits Arg.splits if_splits option.splits TypeKind.splits BufferKind.splits)

lemma analyzeArg_strings:
  "analyzeArg a ctx s = Inr s' \<Longrightarrow>
   strings s' = strings s \<union> (dataContents BufferString [a] - {[]}) \<and>
   files s' = files s \<union> (dataContents BufferFilename [a] - {[]})"
  by (auto simp: analyzeArg_def notePointer_def noteType_def dataContents_def inputData_def
        contents_def
      split: sum.splits Arg.splits if_splits option.splits TypeKind.splits BufferKind.splits)

lemma analyzeArg_extends: "analyzeArg a ctx s = Inr s' \<Longrightarrow> extends s s'"
  by (auto simp: analyzeArg_def notePointer_def noteType_def extends_def
      split: sum.splits Arg.splits if_splits option.splits TypeKind.splits BufferKind.splits)

lemma analyzeArg_ok:
  "argOK (target s) a \<Longrightarrow> \<exists>s'. analyzeArg a ctx s = Inr s'"
  by (auto simp: analyzeArg_def notePointer_def noteType_def argOK_def
      split: sum.splits Arg.splits if_splits option.splits TypeKind.splits BufferKind.splits)


lemma extends_refl: "extends s s"
  by (simp add: extends_def)

lemma extends_trans: "extends s s1 \<Longrightarrow> extends s1 s2 \<Longrightarrow> extends s s2"
  unfolding extends_def
proof (intro conjI allI)
  fix name
  assume a: "files s \<subseteq> files s1 \<and> strings s \<subseteq> strings s1 \<and>
      (\<forall>name. \<exists>more. resources s1 name = resources s name @ more)"
    and b: "files s1 \<subseteq> files s2 \<and> strings s1 \<subseteq> strings s2 \<and>
      (\<forall>name. \<exists>more. resources s2 name = resources s1 name @ more)"
  from a obtain m1 where "resources s1 name = resources s name @ m1" by blast
  moreover from b obtain m2 where "resources s2 name = resources s1 name @ m2" by blast
  ultimately have "resources s2 name = resources s name @ (m1 @ m2)" by simp
  then show "\<exists>more. resources s2 name = resources s name @ more" by blast
qed auto

lemma dataContents_append:
  "dataContents kind (xs @ ys) = dataContents kind xs \<union> dataContents kind ys"
  by (simp add: dataContents_def)

lemma dataContents_Nil: "dataContents kind [] = {}"
  by (simp add: dataContents_def)

lemma foldE_analyzeArg:
  "foldE analyzeArg vs s = Inr s' \<Longrightarrow>
   target s' = target s \<and> extends s s' \<and>
   strings s' = strings s \<union> (dataContents BufferString (map fst vs) - {[]}) \<and>
   files s' = files s \<union> (dataContents BufferFilename (map fst vs) - {[]})"
proof (induction vs arbitrary: s)
  case Nil
  then show ?case by (simp add: extends_refl dataContents_Nil)
next
  case (Cons v vs)
  obtain a ctx where v: "v = (a, ctx)" by (cases v)
  from Cons.prems obtain s1 where
    s1: "analyzeArg a ctx s = Inr s1" and rest: "foldE analyzeArg vs s1 = Inr s'"
    by (auto simp: v split: sum.splits)
  note one = analyzeArg_target[OF s1] analyzeArg_extends[OF s1] analyzeArg_strings[OF s1]
  note more = Cons.IH[OF rest]
  have dc: "\<And>kind. dataContents kind (map fst (v # vs)) =
      dataContents kind [a] \<union> dataContents kind (map fst vs)"
    by (simp add: v dataContents_def)
  have "extends s s'" using one(2) more extends_trans by blast
  moreover have "strings s' = strings s \<union> (dataContents BufferString (map fst (v # vs)) - {[]})"
    unfolding dc using one(3) more by blast
  moreover have "files s' = files s \<union> (dataContents BufferFilename (map fst (v # vs)) - {[]})"
    unfolding dc using one(3) more by blast
  ultimately show ?case using one(1) more by simp
qed

lemma foldE_analyzeArg_ok:
  "list_all (argOK (target s)) (map fst vs) \<Longrightarrow> \<exists>s'. foldE analyzeArg vs s = Inr s'"
proof (induction vs arbitrary: s)
  case Nil
  then show ?case by simp
next
  case (Cons v vs)
  obtain a ctx where v: "v = (a, ctx)" by (cases v)
  from Cons.prems obtain s1 where s1: "analyzeArg a ctx s = Inr s1"
    using analyzeArg_ok[of s a ctx] by (auto simp: v)
  have "target s1 = target s" by (rule analyzeArg_target[OF s1])
  then have "\<exists>s'. foldE analyzeArg vs s1 = Inr s'" using Cons.IH[of s1] Cons.prems by simp
  then show ?case by (simp add: v s1)
qed

text \<open>The calls of a program.\<close>

lemma analyzeCalls_takeWhile:
  "analyzeCalls s cs c = analyzeCalls s (takeWhile (\<lambda>pc. fst pc \<noteq> c) cs) c"
  by (induction cs arbitrary: s) (auto split: sum.splits)

lemma analyzeCalls_prefix:
  "analyzeCalls s (xs @ (c, k) # ys) c = analyzeCalls s (xs @ (c, k') # ys') c"
  by (induction xs arbitrary: s) (auto split: sum.splits)

lemma analyzeCalls_other:
  "c \<notin> fst ` set cs \<Longrightarrow> c' \<notin> fst ` set cs \<Longrightarrow> analyzeCalls s cs c = analyzeCalls s cs c'"
  by (induction cs arbitrary: s) (auto split: sum.splits)

lemma analyzeCalls_append:
  "c \<notin> fst ` set xs \<Longrightarrow>
   analyzeCalls s (xs @ ys) c =
     (case analyzeCalls s xs c of Inl e \<Rightarrow> Inl e | Inr s1 \<Rightarrow> analyzeCalls s1 ys c)"
  by (induction xs arbitrary: s) (auto split: sum.splits)

lemma analyzeCalls_result:
  "analyzeCalls s cs c = Inr s' \<Longrightarrow>
   target s' = target s \<and> extends s s' \<and>
   list_all (\<lambda>pc. groupsOKCall never (snd pc)) (takeWhile (\<lambda>pc. fst pc \<noteq> c) cs) \<and>
   strings s' = strings s \<union>
     (dataContents BufferString
        (concat (map (\<lambda>pc. preorderCall (snd pc)) (takeWhile (\<lambda>pc. fst pc \<noteq> c) cs))) - {[]}) \<and>
   files s' = files s \<union>
     (dataContents BufferFilename
        (concat (map (\<lambda>pc. preorderCall (snd pc)) (takeWhile (\<lambda>pc. fst pc \<noteq> c) cs))) - {[]})"
proof (induction cs arbitrary: s)
  case Nil
  then show ?case by (simp add: extends_refl dataContents_Nil)
next
  case (Cons pc cs)
  obtain p1 c1 where pc: "pc = (p1, c1)" by (cases pc)
  show ?case
  proof (cases "p1 = c")
    case True
    then show ?thesis using Cons.prems by (simp add: pc extends_refl dataContents_Nil)
  next
    case False
    from Cons.prems False obtain s1 where
      s1: "state_analyze s c1 = Inr s1" and rest: "analyzeCalls s1 cs c = Inr s'"
      by (auto simp: pc split: sum.splits)
    note f = state_analyze_fold[OF s1]
    note one = foldE_analyzeArg[OF f[THEN conjunct2]]
    note more = Cons.IH[OF rest]
    have "extends s s'" using one more extends_trans by blast
    moreover have "strings s' = strings s \<union>
      (dataContents BufferString
        (concat (map (\<lambda>pc. preorderCall (snd pc)) (takeWhile (\<lambda>pc. fst pc \<noteq> c) (pc # cs)))) - {[]})"
      using one more False
      by (simp add: pc visitsCall_preorder dataContents_append) blast
    moreover have "files s' = files s \<union>
      (dataContents BufferFilename
        (concat (map (\<lambda>pc. preorderCall (snd pc)) (takeWhile (\<lambda>pc. fst pc \<noteq> c) (pc # cs)))) - {[]})"
      using one more False
      by (simp add: pc visitsCall_preorder dataContents_append) blast
    ultimately show ?thesis using one more f False by (simp add: pc)
  qed
qed

lemma analyzeCalls_ok:
  "list_all (\<lambda>pc. groupsOKCall never (snd pc)) (takeWhile (\<lambda>pc. fst pc \<noteq> c) cs) \<Longrightarrow>
   list_all (argOK (target s))
     (concat (map (\<lambda>pc. preorderCall (snd pc)) (takeWhile (\<lambda>pc. fst pc \<noteq> c) cs))) \<Longrightarrow>
   \<exists>s'. analyzeCalls s cs c = Inr s'"
proof (induction cs arbitrary: s)
  case Nil
  then show ?case by simp
next
  case (Cons pc cs)
  obtain p1 c1 where pc: "pc = (p1, c1)" by (cases pc)
  show ?case
  proof (cases "p1 = c")
    case True
    then show ?thesis by (simp add: pc)
  next
    case False
    have g: "groupsOKCall never c1" using Cons.prems(1) False by (simp add: pc)
    have "list_all (argOK (target s)) (map fst (visitsCall never c1))"
      using Cons.prems(2) False by (simp add: pc visitsCall_preorder)
    then obtain s1 where s1: "foldE analyzeArg (visitsCall never c1) s = Inr s1"
      using foldE_analyzeArg_ok by blast
    then have sa: "state_analyze s c1 = Inr s1" using g by (simp add: state_analyze_visits)
    have "target s1 = target s" using foldE_analyzeArg[OF s1] by simp
    then have "\<exists>s'. analyzeCalls s1 cs c = Inr s'"
      using Cons.IH[of s1] Cons.prems False by (simp add: pc)
    then show ?thesis using False sa by (simp add: pc)
  qed
qed


lemma analyze_result:
  "analyze p c = Inr s \<Longrightarrow>
   strings s = dataContents BufferString (argsBefore p c) - {[]} \<and>
   files s = dataContents BufferFilename (argsBefore p c) - {[]}"
  using analyzeCalls_result[of "newState (Target p)" "Calls p" c s]
  by (simp add: analyze_def argsBefore_def callsBefore_def newState_def)

lemma analyze_returns: "analyzable p c \<Longrightarrow> \<exists>s. analyze p c = Inr s"
  using analyzeCalls_ok[of c "Calls p" "newState (Target p)"]
  by (simp add: analyze_def analyzable_def argsBefore_def callsBefore_def newState_def)

section \<open>The complexity predicate\<close>

lemma complexCallback_visitor: "complexCallback arg = visitor (complexStop arg) complexVisit"
  by (rule ext)+
     (auto simp: complexCallback_def visitor_def complexStop_def complexVisit_def complexType_def
        ptrTyped_def split: TypeKind.splits)

lemma visitsInner_cong:
  assumes "\<And>x ctx. x \<in> set inner \<Longrightarrow> visits stop x ctx = visits stop' x ctx"
  shows "visitsInner stop inner ctx = visitsInner stop' inner ctx"
  using assms by (induction inner arbitrary: ctx) simp_all

lemma size_member: "x \<in> set inner \<Longrightarrow> size x < size (GroupArg t inner)"
  by (induction inner) auto

lemma visits_cong:
  "(\<And>x. size x \<le> size a \<Longrightarrow> stop x = stop' x) \<Longrightarrow> visits stop a ctx = visits stop' a ctx"
proof (induction a arbitrary: ctx)
  case (GroupArg t inner)
  have "\<And>x ctx. x \<in> set inner \<Longrightarrow> visits stop x ctx = visits stop' x ctx"
  proof -
    fix x ctx assume x: "x \<in> set inner"
    show "visits stop x ctx = visits stop' x ctx"
      using GroupArg.IH[OF x] GroupArg.prems size_member[OF x, of t] by (simp add: less_imp_le)
  qed
  then have "\<And>c. visitsInner stop inner c = visitsInner stop' inner c" by (rule visitsInner_cong)
  then show ?case using GroupArg.prems[of "GroupArg t inner"] by simp
next
  case (PointerArg t a vs r)
  show ?case
  proof (cases r)
    case None
    then show ?thesis by simp
  next
    case (Some r0)
    have "\<And>c. visits stop r0 c = visits stop' r0 c"
      using PointerArg.IH[of r0] PointerArg.prems Some by simp
    then show ?thesis using PointerArg.prems[of "PointerArg t a vs r"] Some by simp
  qed
next
  case (UnionArg t opt)
  have "\<And>c. visits stop opt c = visits stop' opt c"
    using UnionArg.IH UnionArg.prems by simp
  then show ?case using UnionArg.prems[of "UnionArg t opt"] by simp
qed simp_all

lemma groupsOK_cong:
  "(\<And>x. size x \<le> size a \<Longrightarrow> stop x = stop' x) \<Longrightarrow> groupsOK stop a = groupsOK stop' a"
proof (induction a)
  case (GroupArg t inner)
  have "\<And>x. x \<in> set inner \<Longrightarrow> groupsOK stop x = groupsOK stop' x"
  proof -
    fix x assume x: "x \<in> set inner"
    show "groupsOK stop x = groupsOK stop' x"
      using GroupArg.IH[OF x] GroupArg.prems size_member[OF x, of t] by (simp add: less_imp_le)
  qed
  then have "list_all (groupsOK stop) inner = list_all (groupsOK stop') inner"
    by (simp add: list_all_iff)
  then show ?case using GroupArg.prems[of "GroupArg t inner"] by simp
next
  case (PointerArg t a vs r)
  show ?case
  proof (cases r)
    case None
    then show ?thesis by simp
  next
    case (Some r0)
    have "groupsOK stop r0 = groupsOK stop' r0"
      using PointerArg.IH[of r0] PointerArg.prems Some by simp
    then show ?thesis using PointerArg.prems[of "PointerArg t a vs r"] Some by simp
  qed
next
  case (UnionArg t opt)
  have "groupsOK stop opt = groupsOK stop' opt"
    using UnionArg.IH UnionArg.prems by simp
  then show ?case using UnionArg.prems[of "UnionArg t opt"] by simp
qed simp_all

lemma foldE_complexVisit:
  "foldE complexVisit vs res = Inr (res \<or> (\<exists>a\<in>set (map fst vs). complexType (TypeOf a)))"
  by (induction vs arbitrary: res) (auto simp: complexVisit_def)

lemma visitsInner_complex:
  assumes "\<And>x ctx. x \<in> set inner \<Longrightarrow>
     (\<exists>a\<in>set (map fst (visits stopsDescent x ctx)). complexType (TypeOf a)) = containsComplex x"
  shows "(\<exists>a\<in>set (map fst (visitsInner stopsDescent inner ctx)). complexType (TypeOf a)) =
     list_ex containsComplex inner"
  using assms
proof (induction inner arbitrary: ctx)
  case Nil
  then show ?case by simp
next
  case (Cons x xs)
  have "(\<exists>a\<in>set (map fst (visits stopsDescent x ctx)). complexType (TypeOf a)) = containsComplex x"
    using Cons.prems by simp
  moreover have "\<And>c. (\<exists>a\<in>set (map fst (visitsInner stopsDescent xs c)). complexType (TypeOf a)) =
     list_ex containsComplex xs"
    using Cons.IH Cons.prems by simp
  ultimately show ?case by (simp add: bex_Un)
qed

lemma visits_complex:
  "(\<exists>x\<in>set (map fst (visits stopsDescent a ctx)). complexType (TypeOf x)) = containsComplex a"
proof (induction a arbitrary: ctx)
  case (GroupArg t inner)
  have "\<And>c. (\<exists>a\<in>set (map fst (visitsInner stopsDescent inner c)). complexType (TypeOf a)) =
     list_ex containsComplex inner"
    by (rule visitsInner_complex) (rule GroupArg.IH)
  moreover have "stopsDescent (GroupArg t inner) = (complexType t \<or> ptrTyped t)"
    by (simp add: stopsDescent_def)
  ultimately show ?case by auto
next
  case (PointerArg t a vs r)
  show ?case
  proof (cases r)
    case None
    then show ?thesis by simp
  next
    case (Some r0)
    have "\<And>c. (\<exists>x\<in>set (map fst (visits stopsDescent r0 c)). complexType (TypeOf x)) = containsComplex r0"
      using PointerArg.IH[of r0] Some by simp
    moreover have "stopsDescent (PointerArg t a vs (Some r0)) = (complexType t \<or> ptrTyped t)"
      by (simp add: stopsDescent_def)
    ultimately show ?thesis using Some by auto
  qed
next
  case (UnionArg t opt)
  moreover have "stopsDescent (UnionArg t opt) = (complexType t \<or> ptrTyped t)"
    by (simp add: stopsDescent_def)
  ultimately show ?case by auto
qed simp_all

lemma complexVisit_total: "\<exists>s1. complexVisit x c s = Inr s1"
  by (simp add: complexVisit_def)

lemma isComplexPtr_eq:
  "isComplexPtr tg (PointerArg t a vs res) =
     (case res of
        None \<Rightarrow> Inr False
      | Some r \<Rightarrow>
          if ArgDir t \<noteq> DirIn then Inr False
          else if Kind t = PtrType AnyArrayAddr then Inr True
          else if groupsOK stopsDescent r then Inr (containsComplex r)
          else Inl BadGroupArgSize)"
proof (cases res)
  case None
  then show ?thesis by simp
next
  case (Some r)
  let ?P = "PointerArg t a vs (Some r)"
  have same: "\<And>x. size x \<le> size r \<Longrightarrow> complexStop ?P x = stopsDescent x"
  proof -
    fix x :: Arg assume "size x \<le> size r"
    then have "size x < size ?P" by simp
    then have "x \<noteq> ?P" by auto
    then show "complexStop ?P x = stopsDescent x" by (simp add: complexStop_def stopsDescent_def)
  qed
  have v: "visits (complexStop ?P) r ArgCtx0 = visits stopsDescent r ArgCtx0"
    by (rule visits_cong) (rule same)
  have g: "groupsOK (complexStop ?P) r = groupsOK stopsDescent r"
    by (rule groupsOK_cong) (rule same)
  have ns: "\<not> Stop ArgCtx0" by (simp add: ArgCtx0_def)
  have run: "ForeachSubArg r (complexCallback ?P) False =
     (if groupsOK stopsDescent r then Inr (containsComplex r) else Inl BadGroupArgSize)"
    unfolding ForeachSubArg_def complexCallback_visitor
    using foreachArgImpl_total[of complexVisit ArgCtx0 r "complexStop ?P" False,
        OF complexVisit_total ns]
    by (simp add: v g foldE_complexVisit visits_complex del: set_map)
  have any: "isAnyPtr tg t = (Kind t = PtrType AnyArrayAddr)"
    by (auto simp: isAnyPtr_def split: TypeKind.splits)
  show ?thesis by (simp add: Some run any)
qed

section \<open>Squashing\<close>

declare squashPtrImpl.simps [simp del] squashPtr.simps [simp del]

lemma noAdjacentBlobs_snoc:
  "noAdjacentBlobs (xs @ [y]) = (noAdjacentBlobs xs \<and> (xs = [] \<or> \<not> (isBlob (last xs) \<and> isBlob y)))"
  by (induction xs rule: noAdjacentBlobs.induct) auto

lemma anySeq_snoc:
  "anySeq tg (xs @ [y]) = (anySeq tg xs \<and> anyElem tg y \<and> (xs = [] \<or> \<not> (isBlob (last xs) \<and> isBlob y)))"
  by (auto simp: anySeq_def noAdjacentBlobs_snoc)

lemma isBlob_blobElem: "isBlob (blobElem tg d)"
  by (simp add: isBlob_def blobElem_def)

lemma anyElem_blobElem: "anyElem tg (blobElem tg d)"
  by (simp add: anyElem_def blobElem_def)

lemma anyElem_blob: "anyElem tg e \<Longrightarrow> isBlob e \<Longrightarrow> \<exists>d. e = blobElem tg d"
  by (auto simp: anyElem_def isBlob_def blobElem_def split: Arg.splits)

text \<open>\<^verbatim>\<open>ensureDataElem\<close> on a sequence of ANY elements.\<close>

lemma ensureDataElem_cases:
  assumes "list_all (anyElem tg) elems"
  shows "(\<exists>xs d. elems = xs @ [blobElem tg d] \<and> ensureDataElem tg elems = Inr elems) \<or>
         ((elems = [] \<or> \<not> isBlob (last elems)) \<and>
          ensureDataElem tg elems = Inr (elems @ [blobElem tg []]))"
proof (cases elems rule: rev_cases)
  case Nil
  then show ?thesis
    by (simp add: ensureDataElem_def blobElem_def MakeUnionArg_def MakeDataArg_def)
next
  case (snoc xs e)
  then have e: "anyElem tg e" using assms by simp
  show ?thesis
  proof (cases "isBlob e")
    case True
    then obtain d where d: "e = blobElem tg d" using anyElem_blob[OF e] by blast
    then show ?thesis using snoc
      by (simp add: ensureDataElem_def blobElem_def)
  next
    case False
    then show ?thesis using snoc e
      by (auto simp: ensureDataElem_def blobElem_def MakeUnionArg_def MakeDataArg_def
            anyElem_def isBlob_def split: Arg.splits)
  qed
qed

lemma setData_blob: "setData f (xs @ [blobElem tg d]) = xs @ [blobElem tg (f d)]"
  by (simp add: setData_def blobElem_def)

lemma ensure_setData:
  assumes "list_all (anyElem tg) elems"
  shows "\<exists>elems1. ensureDataElem tg elems = Inr elems1 \<and>
           putBytes tg bs elems (setData (\<lambda>d. d @ bs) elems1)"
proof -
  from ensureDataElem_cases[OF assms]
  consider xs d where "elems = xs @ [blobElem tg d]" "ensureDataElem tg elems = Inr elems"
    | "elems = [] \<or> \<not> isBlob (last elems)"
      "ensureDataElem tg elems = Inr (elems @ [blobElem tg []])"
    by blast
  then show ?thesis
  proof cases
    case 1
    then show ?thesis by (auto simp: putBytes_def setData_blob)
  next
    case 2
    then show ?thesis by (auto simp: putBytes_def setData_blob)
  qed
qed

lemma appendBytes_append: "appendBytes n v d = d @ appendBytes n v []"
proof (induction n arbitrary: v d)
  case 0
  then show ?case by simp
next
  case (Suc n)
  show ?case using Suc[of "drop_bit 8 v" "d @ [ucast v]"] Suc[of "drop_bit 8 v" "[ucast v]"]
    by simp
qed

lemma length_appendBytes: "length (appendBytes n v d) = length d + n"
  by (induction n arbitrary: v d) simp_all

lemma putBytes_anySeq: "putBytes tg bs elems elems' \<Longrightarrow> anySeq tg elems \<Longrightarrow> anySeq tg elems'"
  by (auto simp: putBytes_def anySeq_snoc anyElem_blobElem isBlob_blobElem)
     (simp add: anySeq_def anyElem_blobElem)


text \<open>The ANY descriptors of an initialised target.\<close>

lemma any_varlen [simp]:
  "IsVarlen (anyUnion (initAnyTypes tg))" "IsVarlen (anyArray (initAnyTypes tg))"
  "Kind (anyArray (initAnyTypes tg)) = ArrayType AnyUnionAddr"
  by (simp_all add: initAnyTypes_def)

lemma any_res_size [simp]:
  "TypeSize (anyRes32 (initAnyTypes tg)) = 4" "TypeSize (anyRes64 (initAnyTypes tg)) = 8"
  by (simp_all add: initAnyTypes_def createResource_def)

lemma any_ptr [simp]:
  "Kind (anyPtrPtr (initAnyTypes tg)) = PtrType AnyArrayAddr"
  "Kind (anyPtr64 (initAnyTypes tg)) = PtrType AnyArrayAddr"
  "TypeSize (anyPtrPtr (initAnyTypes tg)) = PtrSize tg"
  "TypeSize (anyPtr64 (initAnyTypes tg)) = 8"
  "PtrSize (initAnyTypes tg) = PtrSize tg"
  "typeAt (initAnyTypes tg) AnyArrayAddr = Some (anyArray (initAnyTypes tg))"
  by (simp_all add: initAnyTypes_def)

lemma makeAnyPtrType_cases:
  "makeAnyPtrType (initAnyTypes tg) sz field = Inr t1 \<Longrightarrow>
   Kind t1 = PtrType AnyArrayAddr \<and> TypeSize t1 = sz \<and>
   (field = [] \<longrightarrow> t1 = anyPtrPtr (initAnyTypes tg) \<or> t1 = anyPtr64 (initAnyTypes tg))"
  by (auto simp: makeAnyPtrType_def split: if_splits)

lemma makeAnyPtrType_error:
  "makeAnyPtrType tg sz field = Inl e \<Longrightarrow> e = BadPointerSize"
  by (auto simp: makeAnyPtrType_def split: if_splits)

text \<open>Sizes and resources of element lists.\<close>

lemma Size_blobElem [simp]: "Size (blobElem (initAnyTypes tg) d) = of_nat (length d)"
  by (simp add: blobElem_def)

lemma resources_blobElem [simp]: "filter isResult (preorder (blobElem tg d)) = []"
  by (simp add: blobElem_def isResult_def)

lemma sizeOf_snoc [simp]: "sizeOf (xs @ [y]) = sizeOf xs + Size y"
  by (simp add: sizeOf_def)

lemma resourcesOf_snoc [simp]:
  "resourcesOf (xs @ [y]) = resourcesOf xs @ filter isResult (preorder y)"
  by (simp add: resourcesOf_def)

lemma grows_refl: "anySeq tg elems \<Longrightarrow> grows tg elems elems 0 []"
  by (simp add: grows_def)

lemma grows_trans:
  "grows tg e0 e1 n1 r1 \<Longrightarrow> grows tg e1 e2 n2 r2 \<Longrightarrow> grows tg e0 e2 (n1 + n2) (r1 @ r2)"
  by (auto simp: grows_def add.assoc)

lemma grows_anySeq: "grows tg e0 e1 n r \<Longrightarrow> anySeq tg e1"
  by (simp add: grows_def)

lemma grows_putBytes:
  assumes p: "putBytes (initAnyTypes tg) bs elems elems'" and a: "anySeq (initAnyTypes tg) elems"
  shows "grows (initAnyTypes tg) elems elems' (of_nat (length bs)) []"
  unfolding grows_def
proof (intro conjI)
  show "anySeq (initAnyTypes tg) elems'" using putBytes_anySeq[OF p a] .
  show "resourcesOf elems' = resourcesOf elems @ []"
    using p by (auto simp: putBytes_def resourcesOf_def)
  show "sizeOf elems' = sizeOf elems + of_nat (length bs)"
    using p by (auto simp: putBytes_def sizeOf_def)
qed

lemma grows_snoc:
  "anySeq tg elems \<Longrightarrow> anyElem tg y \<Longrightarrow> \<not> isBlob y \<Longrightarrow>
   grows tg elems (elems @ [y]) (Size y) (filter isResult (preorder y))"
  by (simp add: grows_def anySeq_snoc)

lemma anySeq_all: "anySeq tg elems \<Longrightarrow> list_all (anyElem tg) elems"
  by (simp add: anySeq_def)

text \<open>The steps of \<^verbatim>\<open>squashPtrImpl\<close>.\<close>

lemma put_grows:
  assumes a: "anySeq (initAnyTypes tg) elems"
    and e: "ensureDataElem (initAnyTypes tg) elems = Inr elems1"
  shows "grows (initAnyTypes tg) elems (setData (\<lambda>d. d @ bs) elems1) (of_nat (length bs)) []"
  using ensure_setData[OF anySeq_all[OF a], of bs] e grows_putBytes[OF _ a] by auto

lemma appendPad_grows:
  assumes a: "anySeq (initAnyTypes tg) elems"
    and r: "appendPad (initAnyTypes tg) pad elems = Inr elems'"
  shows "grows (initAnyTypes tg) elems elems' pad []"
proof (cases "pad = 0")
  case True
  then show ?thesis using r a by (simp add: appendPad_def grows_refl)
next
  case False
  from r False obtain elems1 where e: "ensureDataElem (initAnyTypes tg) elems = Inr elems1"
    and el: "elems' = setData (\<lambda>dat. dat @ replicate (unat pad) 0) elems1"
    by (auto simp: appendPad_def split: sum.splits if_splits)
  show ?thesis using put_grows[OF a e, of "replicate (unat pad) 0"] el by simp
qed

lemma appendBytes_fun: "appendBytes n v = (\<lambda>d. d @ appendBytes n v [])"
  by (rule ext) (rule appendBytes_append)

lemma length_appendBytes_Nil: "length (appendBytes n v []) = n"
  by (simp add: length_appendBytes)

lemma appendPad_0: "appendPad tg 0 elems = Inr elems"
  by (simp add: appendPad_def)

lemma squashFields_grows:
  assumes IH: "\<And>x elems elems'. x \<in> set inner \<Longrightarrow> anySeq (initAnyTypes tg) elems \<Longrightarrow>
      squashPtrImpl (initAnyTypes tg) x elems = Inr elems' \<Longrightarrow>
      grows (initAnyTypes tg) elems elems' (emitSize x) (map (placeholder (initAnyTypes tg)) (resourceLeaves x))"
    and a: "anySeq (initAnyTypes tg) elems"
    and r: "squashFields (initAnyTypes tg) inner elems = Inr elems'"
  shows "grows (initAnyTypes tg) elems elems'
     (sum_list (map emitSize (filter (\<lambda>fld. \<not> BitfieldMiddle (TypeOf fld)) inner)))
     (map (placeholder (initAnyTypes tg))
        (concat (map resourceLeaves (filter (\<lambda>fld. \<not> BitfieldMiddle (TypeOf fld)) inner))))"
  using assms
proof (induction inner arbitrary: elems)
  case Nil
  then show ?case by (simp add: grows_refl)
next
  case (Cons x xs)
  show ?case
  proof (cases "BitfieldMiddle (TypeOf x)")
    case True
    then show ?thesis using Cons by simp
  next
    case False
    from Cons.prems(3) False obtain e1 where
      x: "squashPtrImpl (initAnyTypes tg) x elems = Inr e1"
      and rest: "squashFields (initAnyTypes tg) xs e1 = Inr elems'"
      by (auto split: sum.splits)
    have g1: "grows (initAnyTypes tg) elems e1 (emitSize x)
        (map (placeholder (initAnyTypes tg)) (resourceLeaves x))"
      using Cons.prems(1)[OF _ Cons.prems(2) x] by simp
    have g2: "grows (initAnyTypes tg) e1 elems'
       (sum_list (map emitSize (filter (\<lambda>fld. \<not> BitfieldMiddle (TypeOf fld)) xs)))
       (map (placeholder (initAnyTypes tg))
          (concat (map resourceLeaves (filter (\<lambda>fld. \<not> BitfieldMiddle (TypeOf fld)) xs))))"
      using Cons.IH[OF _ grows_anySeq[OF g1] rest] Cons.prems(1) by simp
    show ?thesis using grows_trans[OF g1 g2] False by simp
  qed
qed


lemma resourceLeaves_simps [simp]:
  "resourceLeaves (ConstArg t v) = []"
  "resourceLeaves (ResultArg t v) = [ResultArg t v]"
  "resourceLeaves (DataArg t d) = []"
  "resourceLeaves (PointerArg t a vs None) = []"
  "resourceLeaves (PointerArg t a vs (Some r)) = resourceLeaves r"
  "resourceLeaves (UnionArg t opt) = resourceLeaves opt"
  "resourceLeaves (GroupArg t inner) =
     concat (map resourceLeaves (filter (\<lambda>fld. \<not> BitfieldMiddle (TypeOf fld)) inner))"
  by (simp_all add: resourceLeaves_def[abs_def] isResult_def filter_concat comp_def)

text \<open>What \<^verbatim>\<open>squashPtr\<close> returns, given what \<^verbatim>\<open>squashPtrImpl\<close> does on the pointee.\<close>

lemma squashPtr_post:
  assumes IH: "\<And>elems elems'. anySeq (initAnyTypes tg) elems \<Longrightarrow>
      squashPtrImpl (initAnyTypes tg) r elems = Inr elems' \<Longrightarrow>
      grows (initAnyTypes tg) elems elems' (emitSize r) (map (placeholder (initAnyTypes tg)) (resourceLeaves r))"
    and run: "squashPtr (initAnyTypes tg) (PointerArg t ad vs (Some r)) pf = Inr a1"
  shows "\<exists>t1 es. a1 = PointerArg t1 ad vs (Some (GroupArg (anyArray (initAnyTypes tg)) es)) \<and>
           Kind t1 = PtrType AnyArrayAddr \<and> TypeSize t1 = TypeSize t \<and>
           (\<not> pf \<longrightarrow> t1 = anyPtrPtr (initAnyTypes tg) \<or> t1 = anyPtr64 (initAnyTypes tg)) \<and>
           vs = 0 \<and> anySeq (initAnyTypes tg) es \<and>
           resourcesOf es = map (placeholder (initAnyTypes tg)) (resourceLeaves r) \<and>
           sizeOf es = emitSize r \<and> sizeOf es = Size r"
proof -
  let ?tg = "initAnyTypes tg"
  from run have vs: "vs = 0"
    by (simp add: squashPtr.simps split: if_splits)
  from run vs obtain es where es: "squashPtrImpl ?tg r [] = Inr es"
    by (auto simp: squashPtr.simps Let_def split: sum.splits)
  from run vs es obtain t1 where
    t1: "makeAnyPtrType ?tg (TypeSize t) (if pf then FldName t else []) = Inr t1"
    by (auto simp: squashPtr.simps Let_def split: sum.splits)
  note k = makeAnyPtrType_cases[OF t1]
  from run vs es t1 k have chk: "Size (MakeGroupArg (anyArray ?tg) es) = Size r"
    and a1: "a1 = PointerArg t1 ad vs (Some (MakeGroupArg (anyArray ?tg) es))"
    by (auto simp: squashPtr.simps Let_def split: if_splits)
  have e0: "anySeq ?tg []" by (simp add: anySeq_def)
  have g: "grows ?tg [] es (emitSize r) (map (placeholder ?tg) (resourceLeaves r))"
    by (rule IH[OF e0 es])
  have sz: "Size (MakeGroupArg (anyArray ?tg) es) = sizeOf es"
    by (simp add: MakeGroupArg_def sizeOf_def Size_Group)
  show ?thesis
    using a1 k vs g chk sz
    by (auto simp: grows_def MakeGroupArg_def resourcesOf_def sizeOf_def)
qed

lemma blob_not_ptr: "\<not> isBlob (UnionArg u (PointerArg t a vs r))" "\<not> isBlob (UnionArg u (ResultArg t v))"
  by (simp_all add: isBlob_def)

lemma isResult_simps:
  "isResult (ResultArg t v)" "\<not> isResult (ConstArg t v)" "\<not> isResult (DataArg t d)"
  "\<not> isResult (PointerArg t a vs r)" "\<not> isResult (GroupArg t inner)"
  "\<not> isResult (UnionArg t opt)"
  by (simp_all add: isResult_def)

lemma resources_concat: "filter isResult (concat (map preorder es)) = resourcesOf es"
  by (simp add: resourcesOf_def filter_concat comp_def)




lemma squash_Const:
  assumes a: "anySeq (initAnyTypes tg) elems"
    and r: "squashPtrImpl (initAnyTypes tg) (ConstArg t v) elems = Inr elems'"
  shows "post tg (ConstArg t v) elems elems'"
proof (cases "IsPad t")
  case True
  then have "appendPad (initAnyTypes tg) (TypeSize t) elems = Inr elems'"
    using r by (simp add: squashPtrImpl.simps[of _ "ConstArg t v"] split: if_splits)
  from appendPad_grows[OF a this] show ?thesis by simp
next
  case False
  let ?bs = "appendBytes (unat (TypeSize t)) (ValueForProc (initAnyTypes tg) (ConstArg t v) 0) []"
  from False obtain e1 where e: "ensureDataElem (initAnyTypes tg) elems = Inr e1"
    and el: "elems' = setData (appendBytes (unat (TypeSize t)) (ValueForProc (initAnyTypes tg) (ConstArg t v) 0)) e1"
    using r
    by (auto simp: squashPtrImpl.simps[of _ "ConstArg t v"] Let_def appendPad_0 split: if_splits sum.splits)
  have el2: "elems' = setData (\<lambda>d. d @ ?bs) e1"
    unfolding el by (subst appendBytes_fun) (rule refl)
  have "grows (initAnyTypes tg) elems elems' (of_nat (length ?bs)) []"
    unfolding el2 by (rule put_grows[OF a e])
  then show ?thesis by (simp add: length_appendBytes_Nil)
qed


lemma squash_Result:
  assumes a: "anySeq (initAnyTypes tg) elems"
    and r: "squashPtrImpl (initAnyTypes tg) (ResultArg t v) elems = Inr elems'"
  shows "post tg (ResultArg t v) elems elems'"
proof -
  let ?tg = "initAnyTypes tg"
  from r consider
    (r4) "TypeSize t = 4" "elems' = elems @ [UnionArg (anyUnion ?tg) (ResultArg (anyRes32 ?tg) v)]"
    | (r8) "TypeSize t = 8" "TypeSize t \<noteq> 4" "elems' = elems @ [UnionArg (anyUnion ?tg) (ResultArg (anyRes64 ?tg) v)]"
    by (auto simp: squashPtrImpl.simps[of _ "ResultArg t v"] appendPad_0 MakeUnionArg_def split: if_splits)
  then show ?thesis
  proof cases
    case r4
    have "grows ?tg elems (elems @ [UnionArg (anyUnion ?tg) (ResultArg (anyRes32 ?tg) v)])
       (Size (UnionArg (anyUnion ?tg) (ResultArg (anyRes32 ?tg) v)))
       (filter isResult (preorder (UnionArg (anyUnion ?tg) (ResultArg (anyRes32 ?tg) v))))"
      by (rule grows_snoc[OF a]) (simp_all add: anyElem_def blob_not_ptr)
    then show ?thesis using r4 by (simp add: isResult_simps placeholder_def)
  next
    case r8
    have "grows ?tg elems (elems @ [UnionArg (anyUnion ?tg) (ResultArg (anyRes64 ?tg) v)])
       (Size (UnionArg (anyUnion ?tg) (ResultArg (anyRes64 ?tg) v)))
       (filter isResult (preorder (UnionArg (anyUnion ?tg) (ResultArg (anyRes64 ?tg) v))))"
      by (rule grows_snoc[OF a]) (simp_all add: anyElem_def blob_not_ptr)
    then show ?thesis using r8 by (simp add: isResult_simps placeholder_def)
  qed
qed

lemma squash_Data:
  assumes a: "anySeq (initAnyTypes tg) elems"
    and r: "squashPtrImpl (initAnyTypes tg) (DataArg t d) elems = Inr elems'"
  shows "post tg (DataArg t d) elems elems'"
proof (cases "ArgDir t = DirOut")
  case True
  then have "appendPad (initAnyTypes tg) (of_nat (length d)) elems = Inr elems'"
    using r by (simp add: squashPtrImpl.simps[of _ "DataArg t d"] split: if_splits)
  from appendPad_grows[OF a this] show ?thesis by simp
next
  case False
  then obtain e1 where e: "ensureDataElem (initAnyTypes tg) elems = Inr e1"
    and el: "elems' = setData (\<lambda>x. x @ d) e1"
    using r
    by (auto simp: squashPtrImpl.simps[of _ "DataArg t d"] Let_def appendPad_0 split: if_splits sum.splits)
  have "grows (initAnyTypes tg) elems elems' (of_nat (length d)) []"
    unfolding el by (rule put_grows[OF a e])
  then show ?thesis by simp
qed

lemma squash_NilPointer:
  assumes a: "anySeq (initAnyTypes tg) elems"
    and r: "squashPtrImpl (initAnyTypes tg) (PointerArg t ad vs None) elems = Inr elems'"
  shows "post tg (PointerArg t ad vs None) elems elems'"
proof -
  let ?bs = "appendBytes (unat (TypeSize t)) (PhysicalAddr (initAnyTypes tg) (PointerArg t ad vs None)) []"
  obtain e1 where e: "ensureDataElem (initAnyTypes tg) elems = Inr e1"
    and el: "elems' = setData (appendBytes (unat (TypeSize t)) (PhysicalAddr (initAnyTypes tg) (PointerArg t ad vs None))) e1"
    using r
    by (auto simp: squashPtrImpl.simps[of _ "PointerArg t ad vs None"] Let_def appendPad_0 split: if_splits sum.splits)
  have el2: "elems' = setData (\<lambda>d. d @ ?bs) e1"
    unfolding el by (subst appendBytes_fun) (rule refl)
  have "grows (initAnyTypes tg) elems elems' (of_nat (length ?bs)) []"
    unfolding el2 by (rule put_grows[OF a e])
  then show ?thesis by (simp add: length_appendBytes_Nil)
qed


lemma squashPtrImpl_Group:
  assumes "squashPtrImpl tg (GroupArg t inner) elems = Inr elems'"
  shows "\<exists>e1. squashFields tg inner elems = Inr e1 \<and> appendPad tg (alignPad t inner) e1 = Inr elems'"
  using assms
  by (auto simp: squashPtrImpl.simps[of _ "GroupArg t inner"] Let_def split: if_splits sum.splits)

lemma squashPtrImpl_Union:
  assumes "squashPtrImpl tg (UnionArg t opt) elems = Inr elems'"
  shows "\<exists>e1. squashPtrImpl tg opt elems = Inr e1 \<and>
    appendPad tg (if \<not> IsVarlen t then TypeSize t - Size opt else 0) e1 = Inr elems'"
  using assms
  by (auto simp: squashPtrImpl.simps[of _ "UnionArg t opt"] Let_def split: if_splits sum.splits)

lemma squash_Group:
  assumes IH: "\<And>x elems elems'. x \<in> set inner \<Longrightarrow> anySeq (initAnyTypes tg) elems \<Longrightarrow>
      squashPtrImpl (initAnyTypes tg) x elems = Inr elems' \<Longrightarrow> post tg x elems elems'"
    and a: "anySeq (initAnyTypes tg) elems"
    and run: "squashPtrImpl (initAnyTypes tg) (GroupArg t inner) elems = Inr elems'"
  shows "post tg (GroupArg t inner) elems elems'"
proof -
  let ?tg = "initAnyTypes tg"
  from squashPtrImpl_Group[OF run] obtain e1 where
    f: "squashFields ?tg inner elems = Inr e1"
    and pad: "appendPad ?tg (alignPad t inner) e1 = Inr elems'"
    by (elim exE conjE)
  have g1: "grows ?tg elems e1
     (sum_list (map emitSize (filter (\<lambda>fld. \<not> BitfieldMiddle (TypeOf fld)) inner)))
     (map (placeholder ?tg)
        (concat (map resourceLeaves (filter (\<lambda>fld. \<not> BitfieldMiddle (TypeOf fld)) inner))))"
    using IH a f by (rule squashFields_grows)
  have g2: "grows ?tg e1 elems' (alignPad t inner) []"
    using grows_anySeq[OF g1] pad by (rule appendPad_grows)
  have e: "emitSize (GroupArg t inner) =
     sum_list (map emitSize (filter (\<lambda>fld. \<not> BitfieldMiddle (TypeOf fld)) inner)) + alignPad t inner"
    by (rule emitSize.simps)
  have l: "resourceLeaves (GroupArg t inner) =
     concat (map resourceLeaves (filter (\<lambda>fld. \<not> BitfieldMiddle (TypeOf fld)) inner)) @ []"
    by (simp only: resourceLeaves_simps append_Nil2)
  show ?thesis unfolding e l map_append using grows_trans[OF g1 g2] by (simp only: list.map)
qed


lemma squashPtrImpl_Pointer:
  assumes "squashPtrImpl tg (PointerArg t ad vs (Some r)) elems = Inr elems'"
  shows "\<exists>a1. squashPtr tg (PointerArg t ad vs (Some r)) False = Inr a1 \<and>
           elems' = elems @ [UnionArg (anyUnion tg) a1]"
  using assms
  by (auto simp: squashPtrImpl.simps[of _ "PointerArg t ad vs (Some r)"] Let_def appendPad_0
        MakeUnionArg_def split: if_splits sum.splits)

lemma squash_Pointer:
  assumes IH: "\<And>elems elems'. anySeq (initAnyTypes tg) elems \<Longrightarrow>
      squashPtrImpl (initAnyTypes tg) r elems = Inr elems' \<Longrightarrow> post tg r elems elems'"
    and a: "anySeq (initAnyTypes tg) elems"
    and run: "squashPtrImpl (initAnyTypes tg) (PointerArg t ad vs (Some r)) elems = Inr elems'"
  shows "post tg (PointerArg t ad vs (Some r)) elems elems'"
proof -
  let ?tg = "initAnyTypes tg"
  from squashPtrImpl_Pointer[OF run] obtain a1 where
    a1: "squashPtr ?tg (PointerArg t ad vs (Some r)) False = Inr a1"
    and el: "elems' = elems @ [UnionArg (anyUnion ?tg) a1]"
    by (elim exE conjE)
  from squashPtr_post[OF IH a1] obtain t1 es where
    p1: "a1 = PointerArg t1 ad vs (Some (GroupArg (anyArray ?tg) es))"
    and p2: "TypeSize t1 = TypeSize t"
    and p3: "t1 = anyPtrPtr ?tg \<or> t1 = anyPtr64 ?tg"
    and p4: "resourcesOf es = map (placeholder ?tg) (resourceLeaves r)"
    by blast
  have ae: "anyElem ?tg (UnionArg (anyUnion ?tg) a1)"
    unfolding p1 anyElem_def using p3 by simp
  have nb: "\<not> isBlob (UnionArg (anyUnion ?tg) a1)"
    unfolding p1 by (rule blob_not_ptr)
  note g = grows_snoc[OF a ae nb]
  have sz: "Size (UnionArg (anyUnion ?tg) a1) = TypeSize t"
    unfolding p1 using p2 by simp
  have rs: "filter isResult (preorder (UnionArg (anyUnion ?tg) a1)) = resourcesOf es"
    unfolding p1 by (simp add: isResult_simps resources_concat)
  have e: "emitSize (PointerArg t ad vs (Some r)) = TypeSize t" by simp
  have l: "resourceLeaves (PointerArg t ad vs (Some r)) = resourceLeaves r"
    by (simp only: resourceLeaves_simps)
  show ?thesis using g unfolding sz rs el p4 e l .
qed


lemma squash_Union:
  assumes IH: "\<And>elems elems'. anySeq (initAnyTypes tg) elems \<Longrightarrow>
      squashPtrImpl (initAnyTypes tg) opt elems = Inr elems' \<Longrightarrow> post tg opt elems elems'"
    and a: "anySeq (initAnyTypes tg) elems"
    and run: "squashPtrImpl (initAnyTypes tg) (UnionArg t opt) elems = Inr elems'"
  shows "post tg (UnionArg t opt) elems elems'"
proof -
  let ?tg = "initAnyTypes tg"
  let ?pad = "if \<not> IsVarlen t then TypeSize t - Size opt else 0"
  from squashPtrImpl_Union[OF run] obtain e1 where
    o: "squashPtrImpl ?tg opt elems = Inr e1"
    and pad: "appendPad ?tg ?pad e1 = Inr elems'"
    by (elim exE conjE)
  note g1 = IH[OF a o]
  have g2: "grows ?tg e1 elems' ?pad []"
    using grows_anySeq[OF g1] pad by (rule appendPad_grows)
  have e: "emitSize (UnionArg t opt) = emitSize opt + ?pad" by (rule emitSize.simps)
  have l: "resourceLeaves (UnionArg t opt) = resourceLeaves opt @ []"
    by (simp only: resourceLeaves_simps append_Nil2)
  show ?thesis unfolding e l map_append using grows_trans[OF g1 g2] by (simp only: list.map)
qed

lemma squashPtrImpl_grows:
  "anySeq (initAnyTypes tg) elems \<Longrightarrow>
   squashPtrImpl (initAnyTypes tg) a elems = Inr elems' \<Longrightarrow> post tg a elems elems'"
proof (induction a arbitrary: elems elems')
  case (ConstArg t v)
  then show ?case by (rule squash_Const)
next
  case (ResultArg t v)
  then show ?case by (rule squash_Result)
next
  case (PointerArg t ad vs ro)
  show ?case
  proof (cases ro)
    case None
    show ?thesis using PointerArg.prems unfolding None by (rule squash_NilPointer)
  next
    case (Some r)
    have IH: "\<And>elems elems'. anySeq (initAnyTypes tg) elems \<Longrightarrow>
        squashPtrImpl (initAnyTypes tg) r elems = Inr elems' \<Longrightarrow> post tg r elems elems'"
      using PointerArg.IH[of r] Some by simp
    show ?thesis using IH PointerArg.prems unfolding Some by (rule squash_Pointer)
  qed
next
  case (DataArg t d)
  then show ?case by (rule squash_Data)
next
  case (GroupArg t inner)
  show ?case using GroupArg.IH GroupArg.prems by (rule squash_Group)
next
  case (UnionArg t opt)
  show ?case using UnionArg.IH UnionArg.prems by (rule squash_Union)
qed

lemma never_False: "never a = False"
  by (simp add: never_def)

lemma wellFormed_simps:
  "wellFormed (GroupArg t inner) =
     (groupSizeOK t inner \<and> (isStruct t \<or> list_all (\<lambda>fld. \<not> BitfieldMiddle (TypeOf fld)) inner) \<and>
      list_all wellFormed inner)"
  "wellFormed (PointerArg t a vs (Some r)) = wellFormed r"
  "wellFormed (UnionArg t opt) = wellFormed opt"
  by (auto simp: wellFormed_def list_all_iff never_False)

lemma fieldsSize_emit:
  assumes "\<And>x. x \<in> set inner \<Longrightarrow> wellFormed x \<Longrightarrow> emitSize x = Size x"
    and "list_all wellFormed inner"
  shows "sum_list (map emitSize (filter (\<lambda>fld. \<not> BitfieldMiddle (TypeOf fld)) inner)) = fieldsSize inner"
  using assms by (induction inner) (auto simp: fieldsSize_def)

lemma group_size:
  assumes ok: "groupSizeOK t inner"
    and bf: "isStruct t \<or> list_all (\<lambda>fld. \<not> BitfieldMiddle (TypeOf fld)) inner"
  shows "fieldsSize inner + alignPad t inner = Size (GroupArg t inner)"
proof (cases "IsVarlen t")
  case False
  then have "alignPad t inner = 0" by (simp add: alignPad_def split: TypeKind.splits)
  then show ?thesis using ok False by (simp add: groupSizeOK_def)
next
  case True
  show ?thesis
  proof (cases "isStruct t")
    case True
    then obtain al fs where k: "Kind t = StructType al fs"
      by (auto simp: isStruct_def split: TypeKind.splits)
    show ?thesis using \<open>IsVarlen t\<close>
      by (simp add: Size_Group alignPad_def k fieldsSize_def Let_def)
  next
    case False
    then have nm: "list_all (\<lambda>fld. \<not> BitfieldMiddle (TypeOf fld)) inner" using bf by simp
    then have f: "filter (\<lambda>fld. \<not> BitfieldMiddle (TypeOf fld)) inner = inner"
      by (simp add: list_all_iff)
    have "alignPad t inner = 0" using False
      by (simp add: alignPad_def isStruct_def split: TypeKind.splits)
    moreover have "Size (GroupArg t inner) = sum_list (map Size inner)"
      using False \<open>IsVarlen t\<close> by (simp add: Size_Group isStruct_def split: TypeKind.splits)
    ultimately show ?thesis by (simp add: fieldsSize_def f)
  qed
qed

lemma emitSize_Size: "wellFormed a \<Longrightarrow> emitSize a = Size a"
proof (induction a)
  case (GroupArg t inner)
  from GroupArg.prems have ok: "groupSizeOK t inner"
    and bf: "isStruct t \<or> list_all (\<lambda>fld. \<not> BitfieldMiddle (TypeOf fld)) inner"
    and wf: "list_all wellFormed inner"
    by (simp_all add: wellFormed_simps)
  have "sum_list (map emitSize (filter (\<lambda>fld. \<not> BitfieldMiddle (TypeOf fld)) inner)) = fieldsSize inner"
    using GroupArg.IH wf by (rule fieldsSize_emit)
  then have "emitSize (GroupArg t inner) = fieldsSize inner + alignPad t inner" by simp
  then show ?case using group_size[OF ok bf] by simp
next
  case (UnionArg t opt)
  then have "emitSize opt = Size opt" by (simp add: wellFormed_simps)
  then show ?case by simp
qed simp_all


lemma ensureDataElem_error: "ensureDataElem tg elems = Inl e \<Longrightarrow> e = TypeAssertion"
  by (auto simp: ensureDataElem_def split: if_splits Arg.splits)

lemma appendPad_error: "appendPad tg pad elems = Inl e \<Longrightarrow> e \<noteq> SquashChangedSize"
  by (auto simp: appendPad_def split: if_splits sum.splits dest: ensureDataElem_error)

lemma noSCS_Const: "squashPtrImpl tg (ConstArg t v) elems \<noteq> Inl SquashChangedSize"
proof
  assume r: "squashPtrImpl tg (ConstArg t v) elems = Inl SquashChangedSize"
  show False
  proof (cases "IsPad t")
    case True
    then have "appendPad tg (TypeSize t) elems = Inl SquashChangedSize"
      using r by (simp add: squashPtrImpl.simps[of _ "ConstArg t v"] split: if_splits)
    then show False using appendPad_error by blast
  next
    case False
    then have "ensureDataElem tg elems = Inl SquashChangedSize"
      using r
      by (auto simp: squashPtrImpl.simps[of _ "ConstArg t v"] Let_def appendPad_0 split: if_splits sum.splits)
    then show False using ensureDataElem_error by fastforce
  qed
qed

lemma noSCS_Result: "squashPtrImpl tg (ResultArg t v) elems \<noteq> Inl SquashChangedSize"
  by (simp add: squashPtrImpl.simps[of _ "ResultArg t v"] appendPad_0 split: if_splits)

lemma noSCS_Data: "squashPtrImpl tg (DataArg t d) elems \<noteq> Inl SquashChangedSize"
proof
  assume r: "squashPtrImpl tg (DataArg t d) elems = Inl SquashChangedSize"
  show False
  proof (cases "ArgDir t = DirOut")
    case True
    then have "appendPad tg (of_nat (length d)) elems = Inl SquashChangedSize"
      using r by (simp add: squashPtrImpl.simps[of _ "DataArg t d"] split: if_splits)
    then show False using appendPad_error by blast
  next
    case False
    then have "ensureDataElem tg elems = Inl SquashChangedSize"
      using r
      by (auto simp: squashPtrImpl.simps[of _ "DataArg t d"] Let_def appendPad_0 split: if_splits sum.splits)
    then show False using ensureDataElem_error by fastforce
  qed
qed

lemma noSCS_NilPointer: "squashPtrImpl tg (PointerArg t ad vs None) elems \<noteq> Inl SquashChangedSize"
proof
  assume r: "squashPtrImpl tg (PointerArg t ad vs None) elems = Inl SquashChangedSize"
  then have "ensureDataElem tg elems = Inl SquashChangedSize"
    by (auto simp: squashPtrImpl.simps[of _ "PointerArg t ad vs None"] Let_def appendPad_0
          split: if_splits sum.splits)
  then show False using ensureDataElem_error by fastforce
qed

lemma squashPtrImpl_Pointer_err:
  "squashPtrImpl tg (PointerArg t ad vs (Some r)) elems = Inl e \<Longrightarrow>
   e = BitfieldInSquash \<or> squashPtr tg (PointerArg t ad vs (Some r)) False = Inl e"
  by (auto simp: squashPtrImpl.simps[of _ "PointerArg t ad vs (Some r)"] Let_def appendPad_0
        split: if_splits sum.splits)

lemma squashPtrImpl_Union_err:
  "squashPtrImpl tg (UnionArg t opt) elems = Inl SquashChangedSize \<Longrightarrow>
   squashPtrImpl tg opt elems = Inl SquashChangedSize"
  by (auto simp: squashPtrImpl.simps[of _ "UnionArg t opt"] Let_def
        split: if_splits sum.splits dest: appendPad_error)

lemma squashPtrImpl_Group_err:
  "squashPtrImpl tg (GroupArg t inner) elems = Inl SquashChangedSize \<Longrightarrow>
   squashFields tg inner elems = Inl SquashChangedSize"
  by (auto simp: squashPtrImpl.simps[of _ "GroupArg t inner"] Let_def
        split: if_splits sum.splits dest: appendPad_error)


lemma squashPtr_unfold:
  "squashPtr tg (PointerArg t ad vs (Some r)) pf =
     (if vs \<noteq> 0 then Inl BadPtrArg
      else case squashPtrImpl tg r [] of
             Inl e \<Rightarrow> Inl e
           | Inr elems \<Rightarrow>
               (case makeAnyPtrType tg (TypeSize t) (if pf then FldName t else []) of
                  Inl e \<Rightarrow> Inl e
                | Inr t1 \<Rightarrow>
                    (case Kind t1 of
                       PtrType elem \<Rightarrow>
                         (case typeAt tg elem of
                            None \<Rightarrow> Inl NilDereference
                          | Some et \<Rightarrow>
                              if Size (MakeGroupArg et elems) \<noteq> Size r then Inl SquashChangedSize
                              else Inr (PointerArg t1 ad vs (Some (MakeGroupArg et elems))))
                     | _ \<Rightarrow> Inl TypeAssertion)))"
  by (auto simp: squashPtr.simps Let_def split: sum.splits TypeKind.splits option.splits)

lemma squashPtr_result:
  assumes run: "squashPtr (initAnyTypes tg) (PointerArg t ad vs (Some r)) pf = Inr a1"
  shows "\<exists>t1 es. a1 = PointerArg t1 ad vs (Some (GroupArg (anyArray (initAnyTypes tg)) es)) \<and>
           Kind t1 = PtrType AnyArrayAddr \<and> TypeSize t1 = TypeSize t \<and>
           (\<not> pf \<longrightarrow> t1 = anyPtrPtr (initAnyTypes tg) \<or> t1 = anyPtr64 (initAnyTypes tg)) \<and>
           vs = 0 \<and> anySeq (initAnyTypes tg) es \<and>
           resourcesOf es = map (placeholder (initAnyTypes tg)) (resourceLeaves r) \<and>
           sizeOf es = emitSize r \<and> sizeOf es = Size r"
  using squashPtrImpl_grows run by (rule squashPtr_post)

lemma squashPtr_noSCS:
  assumes IH: "\<And>elems. squashPtrImpl (initAnyTypes tg) r elems \<noteq> Inl SquashChangedSize"
    and wf: "wellFormed r"
  shows "squashPtr (initAnyTypes tg) (PointerArg t ad vs (Some r)) pf \<noteq> Inl SquashChangedSize"
proof
  let ?tg = "initAnyTypes tg"
  assume r: "squashPtr ?tg (PointerArg t ad vs (Some r)) pf = Inl SquashChangedSize"
  then have vs: "vs = 0" by (simp add: squashPtr_unfold split: if_splits)
  obtain es where es: "squashPtrImpl ?tg r [] = Inr es"
    using IH[of "[]"] r vs by (cases "squashPtrImpl ?tg r []") (simp_all add: squashPtr_unfold)
  obtain t1 where t1: "makeAnyPtrType ?tg (TypeSize t) (if pf then FldName t else []) = Inr t1"
    using r vs es makeAnyPtrType_error
    by (cases "makeAnyPtrType ?tg (TypeSize t) (if pf then FldName t else [])")
       (fastforce simp: squashPtr_unfold)+
  note k = makeAnyPtrType_cases[OF t1]
  have e0: "anySeq ?tg []" by (simp add: anySeq_def)
  have "sizeOf es = emitSize r" using squashPtrImpl_grows[OF e0 es] by (simp add: grows_def sizeOf_def)
  then have "Size (MakeGroupArg (anyArray ?tg) es) = Size r"
    using emitSize_Size[OF wf] by (simp add: MakeGroupArg_def sizeOf_def Size_Group)
  then show False using r vs es t1 k by (simp add: squashPtr_unfold)
qed

lemma squashFields_noSCS:
  assumes "\<And>x elems. x \<in> set inner \<Longrightarrow> \<not> BitfieldMiddle (TypeOf x) \<Longrightarrow>
     squashPtrImpl tg x elems \<noteq> Inl SquashChangedSize"
  shows "squashFields tg inner elems \<noteq> Inl SquashChangedSize"
  using assms
proof (induction inner arbitrary: elems)
  case Nil
  then show ?case by simp
next
  case (Cons x xs)
  show ?case
  proof (cases "BitfieldMiddle (TypeOf x)")
    case True
    then show ?thesis using Cons by simp
  next
    case False
    show ?thesis
    proof (cases "squashPtrImpl tg x elems")
      case (Inl e)
      then show ?thesis using False Cons.prems[of x elems] by auto
    next
      case (Inr e1)
      then show ?thesis using False Cons.IH[of e1] Cons.prems by simp
    qed
  qed
qed

lemma squashPtrImpl_noSCS:
  "wellFormed a \<Longrightarrow> squashPtrImpl (initAnyTypes tg) a elems \<noteq> Inl SquashChangedSize"
proof (induction a arbitrary: elems)
  case (ConstArg t v)
  show ?case by (rule noSCS_Const)
next
  case (ResultArg t v)
  show ?case by (rule noSCS_Result)
next
  case (DataArg t d)
  show ?case by (rule noSCS_Data)
next
  case (PointerArg t ad vs ro)
  show ?case
  proof (cases ro)
    case None
    show ?thesis unfolding None by (rule noSCS_NilPointer)
  next
    case (Some r)
    have wf: "wellFormed r" using PointerArg.prems Some by (simp add: wellFormed_simps)
    have IH: "\<And>elems. squashPtrImpl (initAnyTypes tg) r elems \<noteq> Inl SquashChangedSize"
      using PointerArg.IH[of r] Some wf by simp
    have "squashPtr (initAnyTypes tg) (PointerArg t ad vs (Some r)) False \<noteq> Inl SquashChangedSize"
      using IH wf by (rule squashPtr_noSCS)
    then show ?thesis unfolding Some using squashPtrImpl_Pointer_err by blast
  qed
next
  case (GroupArg t inner)
  have wf: "list_all wellFormed inner" using GroupArg.prems by (simp add: wellFormed_simps)
  have "squashFields (initAnyTypes tg) inner elems \<noteq> Inl SquashChangedSize"
  proof (rule squashFields_noSCS)
    fix x es assume "x \<in> set inner"
    then show "squashPtrImpl (initAnyTypes tg) x es \<noteq> Inl SquashChangedSize"
      using GroupArg.IH wf by (simp add: list_all_iff)
  qed
  then show ?case using squashPtrImpl_Group_err by blast
next
  case (UnionArg t opt)
  have "squashPtrImpl (initAnyTypes tg) opt elems \<noteq> Inl SquashChangedSize"
    using UnionArg by (simp add: wellFormed_simps)
  then show ?case using squashPtrImpl_Union_err by blast
qed

lemma squashFields_widths:
  assumes "\<And>x elems elems'. x \<in> set inner \<Longrightarrow> squashPtrImpl tg x elems = Inr elems' \<Longrightarrow>
      list_all (widthOK tg) (resourceLeaves x)"
    and "squashFields tg inner elems = Inr elems'"
  shows "list_all (widthOK tg)
     (concat (map resourceLeaves (filter (\<lambda>fld. \<not> BitfieldMiddle (TypeOf fld)) inner)))"
  using assms
proof (induction inner arbitrary: elems)
  case Nil
  then show ?case by simp
next
  case (Cons x xs)
  show ?case
  proof (cases "BitfieldMiddle (TypeOf x)")
    case True
    then show ?thesis using Cons by simp
  next
    case False
    from Cons.prems(2) False obtain e1 where
      x: "squashPtrImpl tg x elems = Inr e1" and rest: "squashFields tg xs e1 = Inr elems'"
      by (auto split: sum.splits)
    have "list_all (widthOK tg) (resourceLeaves x)" using Cons.prems(1)[OF _ x] by simp
    moreover have "list_all (widthOK tg)
       (concat (map resourceLeaves (filter (\<lambda>fld. \<not> BitfieldMiddle (TypeOf fld)) xs)))"
      using Cons.IH[OF _ rest] Cons.prems(1) by simp
    ultimately show ?thesis using False by simp
  qed
qed

lemma widths_Result:
  assumes "squashPtrImpl tg (ResultArg t v) elems = Inr elems'"
  shows "list_all (widthOK tg) (resourceLeaves (ResultArg t v))"
  using assms
  by (auto simp: squashPtrImpl.simps[of _ "ResultArg t v"] widthOK_def placeholder_def
        split: if_splits)

lemma squashPtr_Inr:
  "squashPtr tg (PointerArg t ad vs (Some r)) pf = Inr a1 \<Longrightarrow> \<exists>es. squashPtrImpl tg r [] = Inr es"
  by (auto simp: squashPtr_unfold split: if_splits sum.splits)

lemma squashPtrImpl_widths:
  "squashPtrImpl tg a elems = Inr elems' \<Longrightarrow> list_all (widthOK tg) (resourceLeaves a)"
proof (induction a arbitrary: elems elems')
  case (ResultArg t v)
  then show ?case by (rule widths_Result)
next
  case (PointerArg t ad vs ro)
  show ?case
  proof (cases ro)
    case None
    then show ?thesis by simp
  next
    case (Some r)
    from PointerArg.prems obtain a1 where "squashPtr tg (PointerArg t ad vs (Some r)) False = Inr a1"
      unfolding Some using squashPtrImpl_Pointer by blast
    then obtain es where "squashPtrImpl tg r [] = Inr es" using squashPtr_Inr by blast
    then have "list_all (widthOK tg) (resourceLeaves r)" using PointerArg.IH[of r] Some by simp
    then show ?thesis using Some by simp
  qed
next
  case (GroupArg t inner)
  from squashPtrImpl_Group[OF GroupArg.prems] obtain e1 where
    f: "squashFields tg inner elems = Inr e1" by blast
  have "list_all (widthOK tg)
     (concat (map resourceLeaves (filter (\<lambda>fld. \<not> BitfieldMiddle (TypeOf fld)) inner)))"
    using GroupArg.IH f by (rule squashFields_widths)
  then show ?case by (simp only: resourceLeaves_simps)
next
  case (UnionArg t opt)
  from squashPtrImpl_Union[OF UnionArg.prems] obtain e1 where
    "squashPtrImpl tg opt elems = Inr e1" by blast
  then have "list_all (widthOK tg) (resourceLeaves opt)" by (rule UnionArg.IH)
  then show ?case by (simp only: resourceLeaves_simps)
qed simp_all




text \<open>The example.\<close>

lemma ex_squash: "squashPtr exTarget exPtr False = Inr exSquashed"
  by code_simp

subsection \<open>When squashing returns\<close>

lemma ensureDataElem_returns:
  "anySeq tg elems \<Longrightarrow> \<exists>e1. ensureDataElem tg elems = Inr e1"
  using ensureDataElem_cases[OF anySeq_all, of tg elems] by blast

lemma appendPad_returns:
  "anySeq tg elems \<Longrightarrow> pad < 2 ^ 63 \<Longrightarrow> \<exists>e1. appendPad tg pad elems = Inr e1"
  using ensureDataElem_returns[of tg elems] by (auto simp: appendPad_def)

lemma appendPad_Inr: "appendPad tg pad elems = Inr e1 \<Longrightarrow> pad < 2 ^ 63"
  by (auto simp: appendPad_def split: if_splits sum.splits)

text \<open>A well-formed subtree that is squashable is squashed.\<close>

lemma returns_Const:
  assumes "squashable tg (ConstArg t v)" and "anySeq tg elems"
  shows "\<exists>e1. squashPtrImpl tg (ConstArg t v) elems = Inr e1"
proof (cases "IsPad t")
  case True
  then show ?thesis using assms appendPad_returns[of tg elems "TypeSize t"]
    by (simp add: squashPtrImpl.simps[of _ "ConstArg t v"])
next
  case False
  then show ?thesis using assms ensureDataElem_returns[of tg elems]
    by (auto simp: squashPtrImpl.simps[of _ "ConstArg t v"] Let_def appendPad_0)
qed

lemma returns_Result:
  assumes "squashable tg (ResultArg t v)"
  shows "\<exists>e1. squashPtrImpl tg (ResultArg t v) elems = Inr e1"
  using assms by (auto simp: squashPtrImpl.simps[of _ "ResultArg t v"] appendPad_0)

lemma returns_Data:
  assumes "squashable tg (DataArg t d)" and "anySeq tg elems"
  shows "\<exists>e1. squashPtrImpl tg (DataArg t d) elems = Inr e1"
proof (cases "ArgDir t = DirOut")
  case True
  then show ?thesis using assms appendPad_returns[of tg elems "of_nat (length d)"]
    by (simp add: squashPtrImpl.simps[of _ "DataArg t d"])
next
  case False
  then show ?thesis using assms ensureDataElem_returns[of tg elems]
    by (auto simp: squashPtrImpl.simps[of _ "DataArg t d"] Let_def appendPad_0)
qed

lemma returns_NilPointer:
  assumes "squashable tg (PointerArg t ad vs None)" and "anySeq tg elems"
  shows "\<exists>e1. squashPtrImpl tg (PointerArg t ad vs None) elems = Inr e1"
  using assms ensureDataElem_returns[of tg elems]
  by (auto simp: squashPtrImpl.simps[of _ "PointerArg t ad vs None"] Let_def appendPad_0)

lemma squashPtr_returns:
  assumes IH: "squashPtrImpl (initAnyTypes tg) r [] = Inr es"
    and wf: "wellFormed r"
    and sz: "TypeSize t = PtrSize (initAnyTypes tg) \<or> TypeSize t = 8"
  shows "\<exists>a1. squashPtr (initAnyTypes tg) (PointerArg t ad 0 (Some r)) pf = Inr a1"
proof -
  let ?tg = "initAnyTypes tg"
  have "\<exists>t1. makeAnyPtrType ?tg (TypeSize t) (if pf then FldName t else []) = Inr t1"
    using sz unfolding makeAnyPtrType_def by (cases "TypeSize t = PtrSize ?tg") simp_all
  then obtain t1 where t1: "makeAnyPtrType ?tg (TypeSize t) (if pf then FldName t else []) = Inr t1"
    by blast
  note k = makeAnyPtrType_cases[OF t1]
  have e0: "anySeq ?tg []" by (simp add: anySeq_def)
  have "sizeOf es = emitSize r" using squashPtrImpl_grows[OF e0 IH] by (simp add: grows_def sizeOf_def)
  then have "Size (MakeGroupArg (anyArray ?tg) es) = Size r"
    using emitSize_Size[OF wf] by (simp add: MakeGroupArg_def sizeOf_def Size_Group)
  then show ?thesis using IH t1 k by (simp add: squashPtr_unfold)
qed

lemma returns_Pointer:
  assumes IH: "squashPtrImpl (initAnyTypes tg) r [] = Inr es"
    and wf: "wellFormed r"
    and sq: "squashable (initAnyTypes tg) (PointerArg t ad vs (Some r))"
  shows "\<exists>e1. squashPtrImpl (initAnyTypes tg) (PointerArg t ad vs (Some r)) elems = Inr e1"
proof -
  from sq have vs: "vs = 0" and sz: "TypeSize t = PtrSize (initAnyTypes tg) \<or> TypeSize t = 8"
    and bf: "\<not> BitfieldMiddle t" by simp_all
  from squashPtr_returns[OF IH wf sz, of ad False] obtain a1 where
    "squashPtr (initAnyTypes tg) (PointerArg t ad 0 (Some r)) False = Inr a1" by blast
  then show ?thesis using bf unfolding vs
    by (simp add: squashPtrImpl.simps[of _ "PointerArg t ad 0 (Some r)"] appendPad_0)
qed

lemma returns_Union:
  assumes IH: "squashPtrImpl (initAnyTypes tg) opt elems = Inr e1"
    and a: "anySeq (initAnyTypes tg) elems"
    and sq: "squashable (initAnyTypes tg) (UnionArg t opt)"
  shows "\<exists>e2. squashPtrImpl (initAnyTypes tg) (UnionArg t opt) elems = Inr e2"
proof -
  have a1: "anySeq (initAnyTypes tg) e1" using squashPtrImpl_grows[OF a IH] by (rule grows_anySeq)
  have "(if \<not> IsVarlen t then TypeSize t - Size opt else 0) < (2 ^ 63 :: u64)"
    using sq by simp
  from appendPad_returns[OF a1 this] obtain e2 where
    "appendPad (initAnyTypes tg) (if \<not> IsVarlen t then TypeSize t - Size opt else 0) e1 = Inr e2"
    by blast
  then show ?thesis using sq IH
    by (auto simp: squashPtrImpl.simps[of _ "UnionArg t opt"] Let_def)
qed

lemma squashFields_returns:
  assumes "\<And>x elems. x \<in> set inner \<Longrightarrow> \<not> BitfieldMiddle (TypeOf x) \<Longrightarrow>
      anySeq (initAnyTypes tg) elems \<Longrightarrow> \<exists>e1. squashPtrImpl (initAnyTypes tg) x elems = Inr e1"
    and "anySeq (initAnyTypes tg) elems"
  shows "\<exists>e1. squashFields (initAnyTypes tg) inner elems = Inr e1 \<and> anySeq (initAnyTypes tg) e1"
  using assms
proof (induction inner arbitrary: elems)
  case Nil
  then show ?case by simp
next
  case (Cons x xs)
  show ?case
  proof (cases "BitfieldMiddle (TypeOf x)")
    case True
    then show ?thesis using Cons.IH[OF _ Cons.prems(2)] Cons.prems(1) by simp
  next
    case False
    from Cons.prems(1)[OF _ False Cons.prems(2)] obtain e1 where
      x: "squashPtrImpl (initAnyTypes tg) x elems = Inr e1" by auto
    have a1: "anySeq (initAnyTypes tg) e1"
      using squashPtrImpl_grows[OF Cons.prems(2) x] by (rule grows_anySeq)
    from Cons.IH[OF _ a1] Cons.prems(1) obtain e2 where
      "squashFields (initAnyTypes tg) xs e1 = Inr e2 \<and> anySeq (initAnyTypes tg) e2" by auto
    then show ?thesis using False x by simp
  qed
qed

lemma returns_Group:
  assumes f: "squashFields (initAnyTypes tg) inner elems = Inr e1"
    and a1: "anySeq (initAnyTypes tg) e1"
    and sq: "squashable (initAnyTypes tg) (GroupArg t inner)"
  shows "\<exists>e2. squashPtrImpl (initAnyTypes tg) (GroupArg t inner) elems = Inr e2"
proof -
  have "alignPad t inner < 2 ^ 63" using sq by simp
  from appendPad_returns[OF a1 this] obtain e2 where
    "appendPad (initAnyTypes tg) (alignPad t inner) e1 = Inr e2" by blast
  then show ?thesis using sq f
    by (auto simp: squashPtrImpl.simps[of _ "GroupArg t inner"] Let_def)
qed

lemma squashPtrImpl_returns:
  "wellFormed a \<Longrightarrow> squashable (initAnyTypes tg) a \<Longrightarrow> anySeq (initAnyTypes tg) elems \<Longrightarrow>
   \<exists>e1. squashPtrImpl (initAnyTypes tg) a elems = Inr e1"
proof (induction a arbitrary: elems)
  case (ConstArg t v)
  then show ?case using returns_Const by blast
next
  case (ResultArg t v)
  then show ?case using returns_Result by blast
next
  case (DataArg t d)
  then show ?case using returns_Data by blast
next
  case (PointerArg t ad vs ro)
  show ?case
  proof (cases ro)
    case None
    then show ?thesis using PointerArg.prems returns_NilPointer by blast
  next
    case (Some r)
    have wf: "wellFormed r" using PointerArg.prems Some by (simp add: wellFormed_simps)
    have sq: "squashable (initAnyTypes tg) r" using PointerArg.prems Some by simp
    have e0: "anySeq (initAnyTypes tg) []" by (simp add: anySeq_def)
    from PointerArg.IH[of r, OF _ wf sq e0] Some obtain es where
      "squashPtrImpl (initAnyTypes tg) r [] = Inr es" by auto
    from returns_Pointer[OF this wf] PointerArg.prems(2) show ?thesis unfolding Some by blast
  qed
next
  case (GroupArg t inner)
  have wf: "list_all wellFormed inner" using GroupArg.prems by (simp add: wellFormed_simps)
  have sq: "list_all (squashable (initAnyTypes tg)) (filter (\<lambda>fld. \<not> BitfieldMiddle (TypeOf fld)) inner)"
    using GroupArg.prems by simp
  have "\<exists>e1. squashFields (initAnyTypes tg) inner elems = Inr e1 \<and> anySeq (initAnyTypes tg) e1"
  proof (rule squashFields_returns)
    fix x es assume "x \<in> set inner" "\<not> BitfieldMiddle (TypeOf x)" "anySeq (initAnyTypes tg) es"
    then show "\<exists>e1. squashPtrImpl (initAnyTypes tg) x es = Inr e1"
      using GroupArg.IH[of x es] wf sq by (simp add: list_all_iff)
  next
    show "anySeq (initAnyTypes tg) elems" by (rule GroupArg.prems)
  qed
  then obtain e1 where "squashFields (initAnyTypes tg) inner elems = Inr e1"
    and "anySeq (initAnyTypes tg) e1" by blast
  then show ?case using GroupArg.prems(2) by (rule returns_Group)
next
  case (UnionArg t opt)
  have "wellFormed opt" "squashable (initAnyTypes tg) opt"
    using UnionArg.prems by (simp_all add: wellFormed_simps)
  from UnionArg.IH[OF this UnionArg.prems(3)] obtain e1 where
    "squashPtrImpl (initAnyTypes tg) opt elems = Inr e1" by blast
  then show ?case using UnionArg.prems(3,2) by (rule returns_Union)
qed

text \<open>A subtree that is squashed is squashable.\<close>

lemma squashPtrImpl_nomiddle:
  "squashPtrImpl tg a elems = Inr e1 \<Longrightarrow> \<not> BitfieldMiddle (TypeOf a)"
  by (subst (asm) squashPtrImpl.simps) (simp split: if_splits)

lemma squashable_Const:
  assumes "squashPtrImpl tg (ConstArg t v) elems = Inr e1"
  shows "squashable tg (ConstArg t v)"
proof -
  have "\<not> BitfieldMiddle t" using squashPtrImpl_nomiddle[OF assms] by simp
  moreover have "TypeSize t < 2 ^ 63" if "IsPad t"
    using assms that appendPad_Inr[of tg "TypeSize t" elems e1]
    by (simp add: squashPtrImpl.simps[of _ "ConstArg t v"] split: if_splits)
  ultimately show ?thesis by simp
qed

lemma squashable_Result:
  assumes "squashPtrImpl tg (ResultArg t v) elems = Inr e1"
  shows "squashable tg (ResultArg t v)"
  using assms by (auto simp: squashPtrImpl.simps[of _ "ResultArg t v"] split: if_splits)

lemma squashable_Data:
  assumes "squashPtrImpl tg (DataArg t d) elems = Inr e1"
  shows "squashable tg (DataArg t d)"
proof -
  have "\<not> BitfieldMiddle t" using squashPtrImpl_nomiddle[OF assms] by simp
  moreover have "Size (DataArg t d) < 2 ^ 63" if "ArgDir t = DirOut"
    using assms that appendPad_Inr[of tg "of_nat (length d)" elems e1]
    by (simp add: squashPtrImpl.simps[of _ "DataArg t d"] split: if_splits)
  ultimately show ?thesis by simp
qed

lemma squashPtr_squashable:
  assumes IH: "\<And>elems e1. squashPtrImpl tg r elems = Inr e1 \<Longrightarrow> squashable tg r"
    and run: "squashPtr tg (PointerArg t ad vs (Some r)) pf = Inr a1"
  shows "vs = 0 \<and> (TypeSize t = PtrSize tg \<or> TypeSize t = 8) \<and> squashable tg r"
proof -
  from run have vs: "vs = 0" by (simp add: squashPtr_unfold split: if_splits)
  from squashPtr_Inr[OF run] obtain es where es: "squashPtrImpl tg r [] = Inr es" by blast
  have "\<exists>t1. makeAnyPtrType tg (TypeSize t) (if pf then FldName t else []) = Inr t1"
    using run vs es
    by (cases "makeAnyPtrType tg (TypeSize t) (if pf then FldName t else [])")
       (simp_all add: squashPtr_unfold)
  then have "TypeSize t = PtrSize tg \<or> TypeSize t = 8"
    by (auto simp: makeAnyPtrType_def split: if_splits)
  then show ?thesis using vs IH[OF es] by simp
qed

lemma squashFields_squashable:
  assumes "\<And>x elems e1. x \<in> set inner \<Longrightarrow> squashPtrImpl tg x elems = Inr e1 \<Longrightarrow> squashable tg x"
    and "squashFields tg inner elems = Inr e1"
  shows "list_all (squashable tg) (filter (\<lambda>fld. \<not> BitfieldMiddle (TypeOf fld)) inner)"
  using assms
proof (induction inner arbitrary: elems)
  case Nil
  then show ?case by simp
next
  case (Cons x xs)
  show ?case
  proof (cases "BitfieldMiddle (TypeOf x)")
    case True
    then show ?thesis using Cons by simp
  next
    case False
    from Cons.prems(2) False obtain e0 where
      x: "squashPtrImpl tg x elems = Inr e0" and rest: "squashFields tg xs e0 = Inr e1"
      by (auto split: sum.splits)
    have "squashable tg x" using Cons.prems(1)[OF _ x] by simp
    moreover have "list_all (squashable tg) (filter (\<lambda>fld. \<not> BitfieldMiddle (TypeOf fld)) xs)"
      using Cons.IH[OF _ rest] Cons.prems(1) by simp
    ultimately show ?thesis using False by simp
  qed
qed

lemma squashPtrImpl_squashable:
  "squashPtrImpl tg a elems = Inr e1 \<Longrightarrow> squashable tg a"
proof (induction a arbitrary: elems e1)
  case (ConstArg t v)
  then show ?case by (rule squashable_Const)
next
  case (ResultArg t v)
  then show ?case by (rule squashable_Result)
next
  case (DataArg t d)
  then show ?case by (rule squashable_Data)
next
  case (PointerArg t ad vs ro)
  have bf: "\<not> BitfieldMiddle t" using squashPtrImpl_nomiddle[OF PointerArg.prems] by simp
  show ?case
  proof (cases ro)
    case None
    then show ?thesis using bf by simp
  next
    case (Some r)
    from PointerArg.prems obtain a1 where run: "squashPtr tg (PointerArg t ad vs (Some r)) False = Inr a1"
      unfolding Some using squashPtrImpl_Pointer by blast
    have "vs = 0 \<and> (TypeSize t = PtrSize tg \<or> TypeSize t = 8) \<and> squashable tg r"
    proof (rule squashPtr_squashable[OF _ run])
      fix es e2 assume "squashPtrImpl tg r es = Inr e2"
      then show "squashable tg r" using PointerArg.IH[of r] Some by simp
    qed
    then show ?thesis using bf Some by simp
  qed
next
  case (GroupArg t inner)
  have bf: "\<not> BitfieldMiddle t" using squashPtrImpl_nomiddle[OF GroupArg.prems] by simp
  from squashPtrImpl_Group[OF GroupArg.prems] obtain e0 where
    f: "squashFields tg inner elems = Inr e0" and p: "appendPad tg (alignPad t inner) e0 = Inr e1"
    by blast
  have "list_all (squashable tg) (filter (\<lambda>fld. \<not> BitfieldMiddle (TypeOf fld)) inner)"
    using GroupArg.IH f by (rule squashFields_squashable)
  then show ?case using bf appendPad_Inr[OF p] by simp
next
  case (UnionArg t opt)
  have bf: "\<not> BitfieldMiddle t" using squashPtrImpl_nomiddle[OF UnionArg.prems] by simp
  from squashPtrImpl_Union[OF UnionArg.prems] obtain e0 where
    o: "squashPtrImpl tg opt elems = Inr e0"
    and p: "appendPad tg (if \<not> IsVarlen t then TypeSize t - Size opt else 0) e0 = Inr e1"
    by blast
  have "squashable tg opt" using o by (rule UnionArg.IH)
  moreover have "\<not> IsVarlen t \<longrightarrow> TypeSize t - Size opt < 2 ^ 63"
    using appendPad_Inr[OF p] by (simp split: if_splits)
  ultimately show ?case using bf by simp
qed

lemma squashPtr_returns_iff:
  assumes wf: "wellFormed r"
  shows "(\<exists>a1. squashPtr (initAnyTypes tg) (PointerArg t ad 0 (Some r)) pf = Inr a1) =
         ((TypeSize t = PtrSize tg \<or> TypeSize t = 8) \<and> squashable (initAnyTypes tg) r)"
proof
  assume "\<exists>a1. squashPtr (initAnyTypes tg) (PointerArg t ad 0 (Some r)) pf = Inr a1"
  then obtain a1 where run: "squashPtr (initAnyTypes tg) (PointerArg t ad 0 (Some r)) pf = Inr a1"
    by blast
  have "0 = (0::u64) \<and> (TypeSize t = PtrSize (initAnyTypes tg) \<or> TypeSize t = 8) \<and>
        squashable (initAnyTypes tg) r"
    using squashPtrImpl_squashable run by (rule squashPtr_squashable)
  then show "(TypeSize t = PtrSize tg \<or> TypeSize t = 8) \<and> squashable (initAnyTypes tg) r"
    by simp
next
  assume a: "(TypeSize t = PtrSize tg \<or> TypeSize t = 8) \<and> squashable (initAnyTypes tg) r"
  have e0: "anySeq (initAnyTypes tg) []" by (simp add: anySeq_def)
  from squashPtrImpl_returns[OF wf _ e0] a obtain es where
    es: "squashPtrImpl (initAnyTypes tg) r [] = Inr es" by blast
  from a have "TypeSize t = PtrSize (initAnyTypes tg) \<or> TypeSize t = 8" by simp
  from squashPtr_returns[OF es wf this]
  show "\<exists>a1. squashPtr (initAnyTypes tg) (PointerArg t ad 0 (Some r)) pf = Inr a1" .
qed

section \<open>The claims\<close>

text \<open>
  C6. For every Group argument the traversal processes, the sizes of its children that are
  not a bitfield middle sum to the declared size of the group when it is fixed-length, and
  to at most that size when it is variable-length: when the traversal returns, every
  group it descended into satisfies the invariant. For a well-formed tree (the invariant
  holds at every group) the check that follows the children never fails: the traversal is
  the run of the visitor along the visits, and panics with the bad group size only if the
  visitor does.
\<close>

theorem group_size_invariant:
  assumes "\<not> Stop ctx"
  shows "(foreachArgImpl a ctx (visitor stop g) s = Inr s' \<longrightarrow> groupsOK stop a) \<and>
         (groupsOK never a \<longrightarrow>
            foreachArgImpl a ctx (visitor stop g) s = foldE g (visits stop a ctx) s) \<and>
         (groupsOK never a \<longrightarrow> (\<forall>x c s0. g x c s0 \<noteq> Inl BadGroupArgSize) \<longrightarrow>
            foreachArgImpl a ctx (visitor stop g) s \<noteq> Inl BadGroupArgSize)"
proof (intro conjI impI)
  assume "foreachArgImpl a ctx (visitor stop g) s = Inr s'"
  with assms show "groupsOK stop a" by (rule foreachArgImpl_ok)
next
  assume "groupsOK never a"
  then have "groupsOK stop a" by (rule groupsOK_never)
  then show "foreachArgImpl a ctx (visitor stop g) s = foldE g (visits stop a ctx) s"
    using assms by (rule foreachArgImpl_visits)
next
  assume ok: "groupsOK never a" and g: "\<forall>x c s0. g x c s0 \<noteq> Inl BadGroupArgSize"
  from ok have "groupsOK stop a" by (rule groupsOK_never)
  then have "foreachArgImpl a ctx (visitor stop g) s = foldE g (visits stop a ctx) s"
    using assms by (rule foreachArgImpl_visits)
  moreover have "foldE g (visits stop a ctx) s \<noteq> Inl BadGroupArgSize"
    using g by (intro foldE_no_error) simp
  ultimately show "foreachArgImpl a ctx (visitor stop g) s \<noteq> Inl BadGroupArgSize" by simp
qed

theorem group_size_invariant_witness:
  "\<not> Stop ArgCtx0 \<and> groupsOK never exPtr \<and>
   foreachArgImpl exPtr ArgCtx0 (visitor never countVisit) 0 = Inr 11 \<and>
   foreachArgImpl exPtr ArgCtx0 (visitor never countVisit) 0 \<noteq> Inl BadGroupArgSize \<and>
   foreachArgImpl badPtr ArgCtx0 (visitor never countVisit) 0 = Inl BadGroupArgSize \<and>
   \<not> groupsOK never badPtr"
proof -
  have ns: "\<not> Stop ArgCtx0" by (simp add: ArgCtx0_def)
  have ok: "groupsOK never exPtr" by code_simp
  have g: "\<forall>x c s0. countVisit x c s0 \<noteq> Inl BadGroupArgSize" by (simp add: countVisit_def)
  have vs: "foldE countVisit (visits never exPtr ArgCtx0) 0 = Inr 11" by code_simp
  have bad: "foreachArgImpl badPtr ArgCtx0 (visitor never countVisit) 0 = Inl BadGroupArgSize"
    by code_simp
  have nbad: "\<not> groupsOK never badPtr" by code_simp
  from group_size_invariant[OF ns, of exPtr never countVisit 0] ok g vs
  have "foreachArgImpl exPtr ArgCtx0 (visitor never countVisit) 0 = Inr 11"
    and "foreachArgImpl exPtr ArgCtx0 (visitor never countVisit) 0 \<noteq> Inl BadGroupArgSize"
    by simp_all
  with ns ok bad nbad show ?thesis by simp
qed

text \<open>
  C2. The traversal of a call visits the return pseudo-argument first and then the
  positional arguments in declared order, and below each argument the children of a Group
  in order, the pointee of a Pointer that has one (with that Pointer as the base and the
  offset 0) and the active option of a Union: \<open>visitsCall\<close>, whose arguments are the
  pre-order \<open>preorderCall\<close> of the tree, every argument once. The traversal is a function
  of the call, so a second run over the same tree visits the same arguments in the same
  order; it runs any visitor along these visits when the groups have their sizes, and
  panics otherwise. A visitor that sets the flag at an argument ends the traversal of that
  argument there.
\<close>

theorem traversal_order:
  "ForeachArg c (visitor never recordVisit) [] =
     (if groupsOKCall never c then Inr (visitsCall never c) else Inl BadGroupArgSize) \<and>
   map fst (visitsCall never c) = preorderCall c \<and>
   (groupsOKCall never c \<longrightarrow> ForeachArg c (visitor never g) s = foldE g (visitsCall never c) s) \<and>
   (g a ctx s = Inr s1 \<longrightarrow> stop a \<longrightarrow> foreachArgImpl a ctx (visitor stop g) s = Inr s1)"
proof (intro conjI impI)
  have "\<And>x c s. \<exists>s1. recordVisit x c s = Inr s1" by (simp add: recordVisit_def)
  then show "ForeachArg c (visitor never recordVisit) [] =
     (if groupsOKCall never c then Inr (visitsCall never c) else Inl BadGroupArgSize)"
    by (simp add: ForeachArg_total foldE_recordVisit)
next
  show "map fst (visitsCall never c) = preorderCall c" by (rule visitsCall_preorder)
next
  assume "groupsOKCall never c"
  then show "ForeachArg c (visitor never g) s = foldE g (visitsCall never c) s"
    by (rule ForeachArg_visits)
next
  assume "g a ctx s = Inr s1" and "stop a"
  then show "foreachArgImpl a ctx (visitor stop g) s = Inr s1" by (rule visitor_stop)
qed

theorem traversal_order_witness:
  "groupsOKCall never exCall \<and>
   ForeachArg exCall (visitor never recordVisit) [] = Inr (visitsCall never exCall) \<and>
   map fst (visitsCall never exCall) =
     [exFd ''ret'' DirOut, exPtr, exStruct, exInt32, exFd ''fd'' DirIn, exUnion, exInt32,
      exInnerPtr, exArray, exRes64, exString DirIn [0x61, 0x62, 0x63],
      exFilename [0x2f, 0x61, 0x62], exInt32] \<and>
   ForeachArg exCall (visitor never countVisit) 0 = Inr 13 \<and>
   countVisit exPtr ArgCtx0 0 = Inr 1 \<and> isPointer exPtr \<and>
   foreachArgImpl exPtr ArgCtx0 (visitor isPointer countVisit) 0 = Inr 1"
proof -
  have ok: "groupsOKCall never exCall" by code_simp
  have pre: "preorderCall exCall =
     [exFd ''ret'' DirOut, exPtr, exStruct, exInt32, exFd ''fd'' DirIn, exUnion, exInt32,
      exInnerPtr, exArray, exRes64, exString DirIn [0x61, 0x62, 0x63],
      exFilename [0x2f, 0x61, 0x62], exInt32]" by code_simp
  have cnt: "foldE countVisit (visitsCall never exCall) 0 = Inr 13" by code_simp
  have g1: "countVisit exPtr ArgCtx0 0 = Inr 1" by (simp add: countVisit_def)
  have st: "isPointer exPtr" by code_simp
  from traversal_order[of exCall countVisit 0 exPtr ArgCtx0 1 isPointer] ok pre cnt g1 st
  show ?thesis by simp
qed

text \<open>
  C9. \<^verbatim>\<open>RequiredFeatures\<close> scans the whole program, with no cutoff, and returns two
  booleans: the first is true exactly when some scalar argument of the program has a
  nonzero bitfield offset or a nonzero bitfield length, the second exactly when some
  argument of the program has a type of the checksum kind (the scan panics when a group
  breaks its size invariant). A program with one bitfield argument (offset 2, length 3)
  and no checksum yields (true, false); a program with neither yields (false, false).
\<close>

theorem required_features:
  "RequiredFeatures p =
     (if groupsOKProg p
      then Inr ((\<exists>a\<in>set (progArgs p). bitfieldConst a), (\<exists>a\<in>set (progArgs p). csumTyped a))
      else Inl BadGroupArgSize) \<and>
   RequiredFeatures (exProg [exBitfield]) = Inr (True, False) \<and>
   RequiredFeatures (exProg [exInt32]) = Inr (False, False)"
proof (intro conjI)
  show "RequiredFeatures p =
     (if groupsOKProg p
      then Inr ((\<exists>a\<in>set (progArgs p). bitfieldConst a), (\<exists>a\<in>set (progArgs p). csumTyped a))
      else Inl BadGroupArgSize)"
    by (simp add: RequiredFeatures_def featuresCalls_eq groupsOKProg_def progArgs_def)
  show "RequiredFeatures (exProg [exBitfield]) = Inr (True, False)" by code_simp
  show "RequiredFeatures (exProg [exInt32]) = Inr (False, False)" by code_simp
qed

theorem required_features_witness:
  "groupsOKProg (exProg [exBitfield, exCsum]) \<and>
   RequiredFeatures (exProg [exBitfield, exCsum]) = Inr (True, True) \<and>
   RequiredFeatures (exProg [exCsum]) = Inr (False, True) \<and>
   \<not> groupsOKProg (exProg [badPtr]) \<and>
   RequiredFeatures (exProg [badPtr]) = Inl BadGroupArgSize"
proof -
  have ok: "groupsOKProg (exProg [exBitfield, exCsum])" and ok2: "groupsOKProg (exProg [exCsum])"
    by code_simp+
  have nok: "\<not> groupsOKProg (exProg [badPtr])" by code_simp
  have b1: "list_ex bitfieldConst (progArgs (exProg [exBitfield, exCsum]))"
    and c1: "list_ex csumTyped (progArgs (exProg [exBitfield, exCsum]))"
    and b2: "\<not> list_ex bitfieldConst (progArgs (exProg [exCsum]))"
    and c2: "list_ex csumTyped (progArgs (exProg [exCsum]))"
    by code_simp+
  from required_features[of "exProg [exBitfield, exCsum]"] required_features[of "exProg [exCsum]"]
    required_features[of "exProg [badPtr]"] ok ok2 nok b1 c1 b2 c2
  show ?thesis by (simp add: list_ex_iff)
qed

text \<open>
  C3. The snapshot that \<^verbatim>\<open>analyze\<close> computes for the call at \<open>c\<close> depends only on the
  calls strictly before it: it is the snapshot of the program cut before \<open>c\<close>, it does not
  change when the call at \<open>c\<close> or the calls after it change, and cutting the program
  right after \<open>c\<close> gives the same snapshot (and the same panic, if there is one).
\<close>

theorem analyze_cutoff:
  "analyze p c = analyze (p\<lparr>Calls := callsBefore p c\<rparr>) c \<and>
   analyze (p\<lparr>Calls := xs @ (c, k) # ys\<rparr>) c = analyze (p\<lparr>Calls := xs @ [(c, k)]\<rparr>) c \<and>
   analyze (p\<lparr>Calls := xs @ (c, k) # ys\<rparr>) c = analyze (p\<lparr>Calls := xs @ (c, k') # ys'\<rparr>) c"
proof (intro conjI)
  show "analyze p c = analyze (p\<lparr>Calls := callsBefore p c\<rparr>) c"
    using analyzeCalls_takeWhile[of "newState (Target p)" "Calls p" c]
    by (simp add: analyze_def callsBefore_def)
  show "analyze (p\<lparr>Calls := xs @ (c, k) # ys\<rparr>) c = analyze (p\<lparr>Calls := xs @ [(c, k)]\<rparr>) c"
    by (simp add: analyze_def analyzeCalls_prefix[of _ xs c k ys k "[]"])
  show "analyze (p\<lparr>Calls := xs @ (c, k) # ys\<rparr>) c = analyze (p\<lparr>Calls := xs @ (c, k') # ys'\<rparr>) c"
    by (simp add: analyze_def analyzeCalls_prefix[of _ xs c k ys k' ys'])
qed

theorem analyze_cutoff_witness:
  "analyze exProgS 2 = analyze (exProgS\<lparr>Calls := [(1, exCall)]\<rparr>) 2 \<and>
   analyze exProgS 2 = analyze (exProgS\<lparr>Calls := [(1, exCall), (2, snd (Calls exProgS ! 1))]\<rparr>) 2 \<and>
   analyze exProgS 2 = analyze (exProgS\<lparr>Calls := [(1, exCall), (2, exCall), (7, exCall)]\<rparr>) 2"
proof -
  let ?k = "snd (Calls exProgS ! 1)"
  have cb: "callsBefore exProgS 2 = [(1, exCall)]" by code_simp
  have p: "exProgS\<lparr>Calls := [(1, exCall)] @ (2, ?k) # [Calls exProgS ! 2]\<rparr> = exProgS"
    by (simp add: exProgS_def)
  note T = analyze_cutoff[of exProgS 2 "[(1, exCall)]" ?k "[Calls exProgS ! 2]" exCall "[(7, exCall)]"]
  from T have "analyze exProgS 2 = analyze (exProgS\<lparr>Calls := callsBefore exProgS 2\<rparr>) 2"
    by (rule conjunct1)
  then have 1: "analyze exProgS 2 = analyze (exProgS\<lparr>Calls := [(1, exCall)]\<rparr>) 2"
    unfolding cb .
  from T have 2: "analyze exProgS 2 = analyze (exProgS\<lparr>Calls := [(1, exCall)] @ [(2, ?k)]\<rparr>) 2"
    unfolding p by (rule conjunct2[THEN conjunct1])
  from T have 3: "analyze exProgS 2 = analyze (exProgS\<lparr>Calls := [(1, exCall)] @ (2, exCall) # [(7, exCall)]\<rparr>) 2"
    unfolding p by (rule conjunct2[THEN conjunct2])
  from 1 2 3 show ?thesis by (simp only: append.simps)
qed


text \<open>
  C4. In a program whose calls are distinct, for a call \<open>ci\<close> strictly before a call
  \<open>ck\<close>: when the analysis up to \<open>ck\<close> returns, so does the analysis up to \<open>ci\<close>, the
  filename set and the string set of the later snapshot are supersets of those of the
  earlier one, and for each resource kind the later list of occurrences is the earlier
  list with further occurrences appended.
\<close>

theorem analyze_monotonic:
  assumes d: "distinct (map fst (Calls p))"
    and cs: "Calls p = xs @ (ci, a) # ys @ (ck, b) # zs"
    and k: "analyze p ck = Inr sk"
  shows "\<exists>si. analyze p ci = Inr si \<and> files si \<subseteq> files sk \<and> strings si \<subseteq> strings sk \<and>
           (\<forall>name. \<exists>more. resources sk name = resources si name @ more)"
proof -
  let ?s0 = "newState (Target p)"
  from d cs have nx: "ci \<notin> fst ` set xs" "ck \<notin> fst ` set xs" by auto
  from k have "analyzeCalls ?s0 (xs @ (ci, a) # ys @ (ck, b) # zs) ck = Inr sk"
    by (simp add: analyze_def cs)
  then obtain s1 where s1: "analyzeCalls ?s0 xs ck = Inr s1"
    and rest: "analyzeCalls s1 ((ci, a) # ys @ (ck, b) # zs) ck = Inr sk"
    using analyzeCalls_append[OF nx(2), of ?s0 "(ci, a) # ys @ (ck, b) # zs"]
    by (auto split: sum.splits)
  have "analyzeCalls ?s0 xs ci = Inr s1"
    using analyzeCalls_other[OF nx(1) nx(2), of ?s0] s1 by simp
  then have i: "analyze p ci = Inr s1"
    using analyzeCalls_append[OF nx(1), of ?s0 "(ci, a) # ys @ (ck, b) # zs"]
    by (simp add: analyze_def cs)
  have "extends s1 sk" using analyzeCalls_result[OF rest] by simp
  with i show ?thesis unfolding extends_def by blast
qed

theorem analyze_monotonic_witness:
  "distinct (map fst (Calls exProgS)) \<and>
   (\<exists>sk si. analyze exProgS 3 = Inr sk \<and> analyze exProgS 2 = Inr si \<and>
      files si \<subseteq> files sk \<and> strings si \<subseteq> strings sk \<and>
      (\<forall>name. \<exists>more. resources sk name = resources si name @ more))"
proof -
  have d: "distinct (map fst (Calls exProgS))" by code_simp
  have cs: "Calls exProgS = [(1, exCall)] @ (2, snd (Calls exProgS ! 1)) # [] @ (3, snd (Calls exProgS ! 2)) # []"
    by (simp add: exProgS_def)
  have "analyzable exProgS 3" by code_simp
  then obtain sk where k: "analyze exProgS 3 = Inr sk" using analyze_returns by blast
  from analyze_monotonic[OF d cs k] k d show ?thesis by blast
qed


text \<open>
  C8, as stated: the string set and the filename set hold exactly the byte contents of
  the input-direction Data arguments reached from the calls before \<open>c\<close>. It fails for a
  Data argument with no content: the source skips it (\<^verbatim>\<open>len(a.Data()) != 0\<close>).
\<close>

theorem analyze_strings_counterexample:
  "map_sum id strings (analyze exProgE 2) = Inr {} \<and>
   dataContents BufferString (argsBefore exProgE 2) = {[]}"
  by code_simp



text \<open>
  C8, amended. After \<^verbatim>\<open>analyze\<close>, the string set and the filename set hold exactly the
  non-empty byte contents of the Data arguments whose direction is not output, reached
  from the calls strictly before \<open>c\<close>: those of the string kind in the string set and those
  of the filename kind in the filename set. The analysis returns whenever the groups
  before \<open>c\<close> have their sizes and no argument before \<open>c\<close> makes the callback panic.
\<close>

theorem analyze_strings:
  "(analyze p c = Inr s \<longrightarrow>
      strings s = dataContents BufferString (argsBefore p c) - {[]} \<and>
      files s = dataContents BufferFilename (argsBefore p c) - {[]}) \<and>
   (analyzable p c \<longrightarrow> (\<exists>s1. analyze p c = Inr s1))"
  using analyze_result[of p c s] analyze_returns[of p c] by blast

theorem analyze_strings_witness:
  "analyzable exProgS 3 \<and>
   (\<exists>s. analyze exProgS 3 = Inr s \<and> strings s = {[0x61, 0x62, 0x63], [0x71]} \<and>
        files s = {[0x2f, 0x61, 0x62]})"
proof -
  have ok: "analyzable exProgS 3" by code_simp
  have st: "dataContents BufferString (argsBefore exProgS 3) - {[]} = {[0x61, 0x62, 0x63], [0x71]}"
    by code_simp
  have fl: "dataContents BufferFilename (argsBefore exProgS 3) - {[]} = {[0x2f, 0x61, 0x62]}"
    by code_simp
  from analyze_strings[of exProgS 3] ok obtain s where s: "analyze exProgS 3 = Inr s" by blast
  from analyze_strings[of exProgS 3 s] s st fl ok show ?thesis by auto
qed

text \<open>
  C5. \<^verbatim>\<open>isComplexPtr\<close> returns false for a pointer without a pointee (so for a null
  pointer) and for one whose direction is not input; otherwise true for a pointer whose
  pointee type is the ANY array descriptor itself (the address is compared, not the
  structure); and otherwise true exactly when the pointee subtree contains, not looking
  below a nested pointer, a variable-length struct or a variable-length union with more
  than five alternatives. (The scan is a traversal: it panics when a group it descends
  into breaks its size invariant.)
\<close>

theorem is_complex:
  "isComplexPtr tg (PointerArg t a vs res) =
     (case res of
        None \<Rightarrow> Inr False
      | Some r \<Rightarrow>
          if ArgDir t \<noteq> DirIn then Inr False
          else if Kind t = PtrType AnyArrayAddr then Inr True
          else if groupsOK stopsDescent r then Inr (containsComplex r)
          else Inl BadGroupArgSize) \<and>
   (IsNull (PointerArg t a vs res) \<longrightarrow> isComplexPtr tg (PointerArg t a vs res) = Inr False) \<and>
   isAnyPtr tg t = (Kind t = PtrType AnyArrayAddr)"
proof (intro conjI impI)
  show "isComplexPtr tg (PointerArg t a vs res) =
     (case res of
        None \<Rightarrow> Inr False
      | Some r \<Rightarrow>
          if ArgDir t \<noteq> DirIn then Inr False
          else if Kind t = PtrType AnyArrayAddr then Inr True
          else if groupsOK stopsDescent r then Inr (containsComplex r)
          else Inl BadGroupArgSize)"
    by (rule isComplexPtr_eq)
  show "isAnyPtr tg t = (Kind t = PtrType AnyArrayAddr)"
    by (auto simp: isAnyPtr_def split: TypeKind.splits)
next
  assume "IsNull (PointerArg t a vs res)"
  then show "isComplexPtr tg (PointerArg t a vs res) = Inr False" by simp
qed

theorem is_complex_witness:
  "isComplexPtr exTarget (ptrTo DirIn exStruct) = Inr True \<and>
   isComplexPtr exTarget (ptrTo DirIn (exFixedStruct [exInt32, exInt32])) = Inr False \<and>
   isComplexPtr exTarget (ptrTo DirIn (exVarUnion 6)) = Inr True \<and>
   isComplexPtr exTarget (ptrTo DirIn (exVarUnion 5)) = Inr False \<and>
   isComplexPtr exTarget (ptrTo DirIn (exFixedStruct [exInt32, ptrTo DirIn exStruct])) = Inr False \<and>
   isComplexPtr exTarget (ptrTo DirOut exStruct) = Inr False \<and>
   isComplexPtr exTarget (ptrTo DirIn badStruct) = Inl BadGroupArgSize \<and>
   IsNull exNullPtr \<and> isComplexPtr exTarget exNullPtr = Inr False \<and>
   isAnyPtr exTarget (anyPtrPtr exTarget) \<and> isComplexPtr exTarget exAnyPtr = Inr True"
proof -
  have g: "groupsOK stopsDescent exStruct" and c: "containsComplex exStruct" by code_simp+
  have "isComplexPtr exTarget (ptrTo DirIn exStruct) = Inr True"
    unfolding ptrTo_def
    using is_complex[of exTarget "mkType ''ptr'' 8 DirIn False (PtrType (DescAddr 10))" "0x80" 0
        "Some exStruct"] g c
    by (simp add: mkType_def del: isComplexPtr.simps)
  moreover have "isComplexPtr exTarget (ptrTo DirIn (exFixedStruct [exInt32, exInt32])) = Inr False"
    by code_simp
  moreover have "isComplexPtr exTarget (ptrTo DirIn (exVarUnion 6)) = Inr True" by code_simp
  moreover have "isComplexPtr exTarget (ptrTo DirIn (exVarUnion 5)) = Inr False" by code_simp
  moreover have "isComplexPtr exTarget (ptrTo DirIn (exFixedStruct [exInt32, ptrTo DirIn exStruct])) = Inr False"
    by code_simp
  moreover have "isComplexPtr exTarget (ptrTo DirOut exStruct) = Inr False" by code_simp
  moreover have "isComplexPtr exTarget (ptrTo DirIn badStruct) = Inl BadGroupArgSize" by code_simp
  moreover have "IsNull exNullPtr" by code_simp
  moreover have "isComplexPtr exTarget exNullPtr = Inr False" by code_simp
  moreover have "isAnyPtr exTarget (anyPtrPtr exTarget)" by code_simp
  moreover have "isComplexPtr exTarget exAnyPtr = Inr True" by code_simp
  ultimately show ?thesis by blast
qed

text \<open>
  C1. For every pointer with a pointee and no VMA size whose pointee is a tree of section 3
  (every group has its size, a bitfield middle occurs only among the fields of a struct),
  the size check at the end of \<^verbatim>\<open>squashPtr\<close> cannot fail. \<^verbatim>\<open>squashPtr\<close> returns exactly
  when the pointer has the size of a target pointer or 8 bytes and the pointee is
  squashable; what it returns is the pointer with an ANY pointer type of the same size
  and, as its pointee, an array of elements over the ANY vocabulary whose size is the
  size the pointee had.
\<close>

theorem squash_preserves_size:
  assumes "wellFormed r"
  shows "squashPtr (initAnyTypes tg) (PointerArg t ad 0 (Some r)) pf \<noteq> Inl SquashChangedSize \<and>
         ((\<exists>a. squashPtr (initAnyTypes tg) (PointerArg t ad 0 (Some r)) pf = Inr a) =
            ((TypeSize t = PtrSize tg \<or> TypeSize t = 8) \<and> squashable (initAnyTypes tg) r)) \<and>
         (squashPtr (initAnyTypes tg) (PointerArg t ad 0 (Some r)) pf = Inr a1 \<longrightarrow>
            (\<exists>t1 es. a1 = PointerArg t1 ad 0 (Some (GroupArg (anyArray (initAnyTypes tg)) es)) \<and>
               isAnyPtr (initAnyTypes tg) t1 \<and> TypeSize t1 = TypeSize t \<and>
               list_all (anyElem (initAnyTypes tg)) es \<and>
               Size (GroupArg (anyArray (initAnyTypes tg)) es) = Size r))"
proof (intro conjI impI)
  show "squashPtr (initAnyTypes tg) (PointerArg t ad 0 (Some r)) pf \<noteq> Inl SquashChangedSize"
    using squashPtrImpl_noSCS[OF assms] assms by (rule squashPtr_noSCS)
next
  show "(\<exists>a. squashPtr (initAnyTypes tg) (PointerArg t ad 0 (Some r)) pf = Inr a) =
        ((TypeSize t = PtrSize tg \<or> TypeSize t = 8) \<and> squashable (initAnyTypes tg) r)"
    using assms by (rule squashPtr_returns_iff)
next
  assume "squashPtr (initAnyTypes tg) (PointerArg t ad 0 (Some r)) pf = Inr a1"
  from squashPtr_result[OF this] obtain t1 es where
    a: "a1 = PointerArg t1 ad 0 (Some (GroupArg (anyArray (initAnyTypes tg)) es))"
    and k: "Kind t1 = PtrType AnyArrayAddr" and ts: "TypeSize t1 = TypeSize t"
    and sq: "anySeq (initAnyTypes tg) es" and sz: "sizeOf es = Size r"
    by blast
  have "isAnyPtr (initAnyTypes tg) t1" using k by (simp add: isAnyPtr_def)
  moreover have "Size (GroupArg (anyArray (initAnyTypes tg)) es) = Size r"
    using sz by (simp add: Size_Group sizeOf_def)
  ultimately show "\<exists>t1 es. a1 = PointerArg t1 ad 0 (Some (GroupArg (anyArray (initAnyTypes tg)) es)) \<and>
               isAnyPtr (initAnyTypes tg) t1 \<and> TypeSize t1 = TypeSize t \<and>
               list_all (anyElem (initAnyTypes tg)) es \<and>
               Size (GroupArg (anyArray (initAnyTypes tg)) es) = Size r"
    using a ts sq by (auto simp: anySeq_def)
qed

theorem squash_preserves_size_witness:
  "wellFormed exStruct \<and> squashable exTarget exStruct \<and> Size exStruct = 32 \<and>
   (\<exists>a. squashPtr exTarget exPtr False = Inr a) \<and>
   squashPtr exTarget exPtr False = Inr exSquashed \<and>
   squashPtr exTarget exPtr False \<noteq> Inl SquashChangedSize \<and>
   (\<exists>t1 es. exSquashed = PointerArg t1 0x20 0 (Some (GroupArg (anyArray exTarget) es)) \<and>
      isAnyPtr exTarget t1 \<and> TypeSize t1 = 8 \<and> list_all (anyElem exTarget) es \<and>
      Size (GroupArg (anyArray exTarget) es) = 32) \<and>
   wellFormed exRes16 \<and> \<not> squashable exTarget exRes16 \<and>
   \<not> (\<exists>a. squashPtr exTarget (ptrTo DirIn exRes16) False = Inr a) \<and>
   squashPtr exTarget (ptrTo DirIn exRes16) False = Inl BadSize"
proof -
  have wf: "wellFormed exStruct" by code_simp
  have sq: "squashable (initAnyTypes exTarget0) exStruct"
    unfolding exTarget_def[symmetric] by code_simp
  have sz: "Size exStruct = 32" by code_simp
  have run: "squashPtr (initAnyTypes exTarget0)
      (PointerArg (mkType ''ptr'' 8 DirIn False (PtrType (DescAddr 7))) 0x20 0 (Some exStruct)) False
      = Inr exSquashed"
    using ex_squash by (simp add: exTarget_def exPtr_def)
  have ts: "TypeSize (mkType ''ptr'' 8 DirIn False (PtrType (DescAddr 7))) = 8"
    by (simp add: mkType_def)
  note T = squash_preserves_size[OF wf, of exTarget0
      "mkType ''ptr'' 8 DirIn False (PtrType (DescAddr 7))" "0x20" False exSquashed]
  from T run have "\<exists>t1 es. exSquashed = PointerArg t1 0x20 0 (Some (GroupArg (anyArray exTarget) es)) \<and>
      isAnyPtr exTarget t1 \<and> TypeSize t1 = 8 \<and> list_all (anyElem exTarget) es \<and>
      Size (GroupArg (anyArray exTarget) es) = 32"
    unfolding exTarget_def[symmetric] ts sz by blast
  moreover from T have "squashPtr exTarget exPtr False \<noteq> Inl SquashChangedSize"
    by (simp add: exTarget_def exPtr_def)
  moreover from T sq ts have "\<exists>a. squashPtr exTarget exPtr False = Inr a"
    unfolding exTarget_def[symmetric] exPtr_def by blast
  moreover have wf16: "wellFormed exRes16" by code_simp
  moreover have nsq: "\<not> squashable (initAnyTypes exTarget0) exRes16"
    unfolding exTarget_def[symmetric] by code_simp
  moreover from nsq squash_preserves_size[OF wf16, of exTarget0
      "mkType ''ptr'' 8 DirIn False (PtrType (DescAddr 10))" "0x80" False]
  have "\<not> (\<exists>a. squashPtr exTarget (ptrTo DirIn exRes16) False = Inr a)"
    unfolding exTarget_def[symmetric] ptrTo_def by blast
  moreover have "squashPtr exTarget (ptrTo DirIn exRes16) False = Inl BadSize" by code_simp
  ultimately show ?thesis using wf sq sz ex_squash unfolding exTarget_def[symmetric] by blast
qed

text \<open>
  C7. When \<^verbatim>\<open>squashPtr\<close> returns, the resources of the result, nested sequences
  included and in order, are the placeholders of the resource leaves of the pointee in
  the order of the walk, one element for each: the leaf with its type replaced by the
  4-byte or the 8-byte placeholder type, whose width is the size of the leaf. Every step
  of the walk appends the placeholders of the leaves it passes to the resources already
  in the sequence. A resource leaf of any other width panics with the bad size.
\<close>

theorem squash_resources:
  "(squashPtr (initAnyTypes tg) (PointerArg t ad vs (Some r)) pf = Inr a1 \<longrightarrow>
      filter isResult (preorder a1) = map (placeholder (initAnyTypes tg)) (resourceLeaves r) \<and>
      list_all (widthOK (initAnyTypes tg)) (resourceLeaves r)) \<and>
   (anySeq (initAnyTypes tg) elems \<longrightarrow> squashPtrImpl (initAnyTypes tg) a elems = Inr elems' \<longrightarrow>
      resourcesOf elems' = resourcesOf elems @ map (placeholder (initAnyTypes tg)) (resourceLeaves a) \<and>
      list_all (widthOK (initAnyTypes tg)) (resourceLeaves a)) \<and>
   (\<not> BitfieldMiddle rt \<longrightarrow> TypeSize rt \<noteq> 4 \<longrightarrow> TypeSize rt \<noteq> 8 \<longrightarrow>
      squashPtrImpl tg (ResultArg rt v) elems = Inl BadSize)"
proof (intro conjI impI)
  assume run: "squashPtr (initAnyTypes tg) (PointerArg t ad vs (Some r)) pf = Inr a1"
  from squashPtr_result[OF run] obtain t1 es where
    a: "a1 = PointerArg t1 ad vs (Some (GroupArg (anyArray (initAnyTypes tg)) es))"
    and rs: "resourcesOf es = map (placeholder (initAnyTypes tg)) (resourceLeaves r)"
    by blast
  show "filter isResult (preorder a1) = map (placeholder (initAnyTypes tg)) (resourceLeaves r)"
    unfolding a using rs by (simp add: isResult_simps resources_concat)
  from squashPtr_Inr[OF run] obtain es' where "squashPtrImpl (initAnyTypes tg) r [] = Inr es'"
    by blast
  then show "list_all (widthOK (initAnyTypes tg)) (resourceLeaves r)"
    by (rule squashPtrImpl_widths)
next
  assume "anySeq (initAnyTypes tg) elems" and "squashPtrImpl (initAnyTypes tg) a elems = Inr elems'"
  then have "grows (initAnyTypes tg) elems elems' (emitSize a)
      (map (placeholder (initAnyTypes tg)) (resourceLeaves a))"
    by (rule squashPtrImpl_grows)
  then show "resourcesOf elems' =
      resourcesOf elems @ map (placeholder (initAnyTypes tg)) (resourceLeaves a)"
    by (simp add: grows_def)
next
  assume "squashPtrImpl (initAnyTypes tg) a elems = Inr elems'"
  then show "list_all (widthOK (initAnyTypes tg)) (resourceLeaves a)"
    by (rule squashPtrImpl_widths)
next
  assume "\<not> BitfieldMiddle rt" "TypeSize rt \<noteq> 4" "TypeSize rt \<noteq> 8"
  then show "squashPtrImpl tg (ResultArg rt v) elems = Inl BadSize"
    by (simp add: squashPtrImpl.simps[of _ "ResultArg rt v"])
qed

theorem squash_resources_witness:
  "squashPtr exTarget exPtr False = Inr exSquashed \<and>
   resourceLeaves exStruct = [exFd ''fd'' DirIn, exRes64] \<and>
   filter isResult (preorder exSquashed) =
     [ResultArg (anyRes32 exTarget) 3, ResultArg (anyRes64 exTarget) 5] \<and>
   list_all (widthOK exTarget) (resourceLeaves exStruct) \<and>
   squashPtrImpl exTarget exRes16 [] = Inl BadSize"
proof -
  have run: "squashPtr (initAnyTypes exTarget0)
      (PointerArg (mkType ''ptr'' 8 DirIn False (PtrType (DescAddr 7))) 0x20 0 (Some exStruct)) False
      = Inr exSquashed"
    using ex_squash by (simp add: exTarget_def exPtr_def)
  have lv: "resourceLeaves exStruct = [exFd ''fd'' DirIn, exRes64]" by code_simp
  have pl: "map (placeholder exTarget) [exFd ''fd'' DirIn, exRes64] =
     [ResultArg (anyRes32 exTarget) 3, ResultArg (anyRes64 exTarget) 5]" by code_simp
  have bf: "\<not> BitfieldMiddle (TypeOf exRes16)" "TypeSize (TypeOf exRes16) \<noteq> 4"
    "TypeSize (TypeOf exRes16) \<noteq> 8" by code_simp+
  have r16: "exRes16 = ResultArg (TypeOf exRes16) 9" by (simp add: exRes16_def)
  note T = squash_resources[where tg = exTarget0
      and t = "mkType ''ptr'' 8 DirIn False (PtrType (DescAddr 7))" and ad = "0x20" and vs = 0
      and r = exStruct and pf = False and ?a1.0 = exSquashed]
  note T2 = squash_resources[where tg = exTarget and rt = "TypeOf exRes16" and v = 9 and elems = "[]"]
  from T run have "filter isResult (preorder exSquashed) =
      map (placeholder exTarget) (resourceLeaves exStruct)"
    and "list_all (widthOK exTarget) (resourceLeaves exStruct)"
    unfolding exTarget_def[symmetric] by blast+
  moreover from T2 bf have "squashPtrImpl exTarget exRes16 [] = Inl BadSize"
    unfolding r16[symmetric] by blast
  ultimately show ?thesis using ex_squash lv pl by simp
qed



end
